theory Spec2Isabelle
  imports Main "HOL-Library.Word" "HOL-Library.AList"
begin

section \<open>The shuffle library (lib/shuffle/sattolo.ts)\<close>

subsection \<open>The random source\<close>

text \<open>
  \<^verbatim>\<open>secureRandomInt(max)\<close> fills a one-element \<^verbatim>\<open>Uint32Array\<close> from
  \<^verbatim>\<open>crypto.getRandomValues\<close> and returns \<^verbatim>\<open>array[0] % max\<close>. The random source is
  modelled as the sequence of 32-bit values that successive calls of
  \<^verbatim>\<open>crypto.getRandomValues\<close> deliver: \<open>g 0\<close> is the next value, and a call leaves the
  source shifted by one. (The \<^verbatim>\<open>Math.random\<close> fallback for environments without
  \<^verbatim>\<open>crypto\<close> is floating point and is not modelled.)
\<close>

type_synonym rng = "nat \<Rightarrow> 32 word"

definition reduce :: "32 word \<Rightarrow> nat \<Rightarrow> nat" where
  "reduce w max' = unat w mod max'"

definition secureRandomInt :: "nat \<Rightarrow> rng \<Rightarrow> nat \<times> rng" where
  "secureRandomInt max' g = (reduce (g 0) max', \<lambda>k. g (Suc k))"

subsection \<open>Sattolo's shuffle\<close>

text \<open>
  The loop \<^verbatim>\<open>for (let i = n - 1; i > 0; i--)\<close> of \<^verbatim>\<open>sattoloShuffleInPlace\<close>:
  \<open>sattolo_loop i g array\<close> runs the iterations with indices \<open>i, i - 1, \<dots>, 1\<close>.
  Each iteration draws \<open>j = secureRandomInt(i)\<close> and exchanges the elements at \<open>i\<close> and \<open>j\<close>.
  Since \<open>j < i < n\<close> both indices are inside the array.
\<close>

fun sattolo_loop :: "nat \<Rightarrow> rng \<Rightarrow> 'a list \<Rightarrow> 'a list" where
  "sattolo_loop 0 g array = array"
| "sattolo_loop (Suc k) g array =
     (let i = Suc k;
          (j, g') = secureRandomInt i g
      in sattolo_loop k g' (array[i := array ! j, j := array ! i]))"

definition sattoloShuffleInPlace :: "rng \<Rightarrow> 'a list \<Rightarrow> 'a list" where
  "sattoloShuffleInPlace g array =
     (let n = length array in
      if n < 2 then array else sattolo_loop (n - 1) g array)"

definition sattoloShuffle :: "rng \<Rightarrow> 'a list \<Rightarrow> 'a list" where
  "sattoloShuffle g array = sattoloShuffleInPlace g array"

subsection \<open>Building the assignment map\<close>

text \<open>
  A JavaScript \<^verbatim>\<open>Map\<close> keeps its entries in insertion order, and \<^verbatim>\<open>set\<close> on a key
  that is already present replaces the value in place. It is modelled as an association
  list with \<^const>\<open>AList.update\<close> for \<^verbatim>\<open>set\<close> and \<^const>\<open>map_of\<close> for \<^verbatim>\<open>get\<close>.
\<close>

type_synonym assignments = "(string \<times> string) list"

fun set_all :: "string list \<Rightarrow> string list \<Rightarrow> assignments \<Rightarrow> assignments" where
  "set_all (p # ps) (s # ss) m = set_all ps ss (AList.update p s m)"
| "set_all _ _ m = m"

definition createSecretSantaChain :: "rng \<Rightarrow> string list \<Rightarrow> string + assignments" where
  "createSecretSantaChain g participantIds =
     (if length participantIds < 2
      then Inl ''Secret Santa requires at least 2 participants''
      else let shuffled = sattoloShuffle g participantIds
           in Inr (set_all participantIds shuffled []))"

definition createSecretSantaAssignments :: "rng \<Rightarrow> string list \<Rightarrow> string + assignments" where
  "createSecretSantaAssignments g participantIds = createSecretSantaChain g participantIds"

subsection \<open>The validator\<close>

text \<open>
  \<^verbatim>\<open>validateAssignments\<close> returns \<^verbatim>\<open>{ valid: true }\<close> (here \<open>Inr ()\<close>) or
  \<^verbatim>\<open>{ valid: false, error }\<close>. The error texts interpolate ids and sizes; each is a
  constructor carrying the interpolated data:
  \<^item> \<open>Mismatched\<close>: "Mismatched number of santas and recipients";
  \<^item> \<open>NotASanta r\<close>: "Recipient r is not a santa";
  \<^item> \<open>SelfAssignment s\<close>: "Self-assignment detected: s";
  \<^item> \<open>MultipleCycles v n\<close>: "Multiple cycles detected. Only v of n participants in main cycle";
  \<^item> \<open>NotClosed\<close>: "Cycle does not close properly".
\<close>

datatype validation_error =
    Mismatched
  | NotASanta string
  | SelfAssignment string
  | MultipleCycles nat nat
  | NotClosed

text \<open>
  The traversal \<^verbatim>\<open>while (current && !visited.has(current))\<close>. \<open>current\<close> is a string or
  \<^verbatim>\<open>undefined\<close> (\<open>None\<close>); the test \<^verbatim>\<open>current &&\<close> is JavaScript truthiness, which
  fails for \<^verbatim>\<open>undefined\<close> and for the empty string. \<open>visited\<close> is the set of visited
  ids, kept as a list without repetitions (most recent first), so that its length is
  \<^verbatim>\<open>visited.size\<close>.
\<close>

definition truthy :: "string option \<Rightarrow> bool" where
  "truthy current = (case current of None \<Rightarrow> False | Some c \<Rightarrow> c \<noteq> [])"

function traverse :: "assignments \<Rightarrow> string list \<Rightarrow> string option \<Rightarrow> string list \<times> string option" where
  "traverse m visited current =
     (if truthy current \<and> the current \<notin> set visited
      then traverse m (the current # visited) (map_of m (the current))
      else (visited, current))"
  by pat_completeness auto
termination
proof (relation "measure (\<lambda>(m, visited, current).
          2 * card (fst ` set m - set visited) + (if current = None then 0 else 1))")
  show "wf (measure (\<lambda>(m, visited, current).
          2 * card (fst ` set m - set visited) + (if current = None then 0 else 1)))"
    by simp
next
  fix m :: assignments and visited :: "string list" and current :: "string option"
  assume a: "truthy current \<and> the current \<notin> set visited"
  then obtain c where c: "current = Some c" "c \<notin> set visited"
    by (cases current) (auto simp: truthy_def)
  show "((m, the current # visited, map_of m (the current)), (m, visited, current))
        \<in> measure (\<lambda>(m, visited, current).
          2 * card (fst ` set m - set visited) + (if current = None then 0 else 1))"
  proof (cases "map_of m c")
    case None
    have "fst ` set m - set (c # visited) \<subseteq> fst ` set m - set visited" by auto
    then have "card (fst ` set m - set (c # visited)) \<le> card (fst ` set m - set visited)"
      by (intro card_mono) auto
    with None c show ?thesis by simp
  next
    case (Some d)
    then have "c \<in> fst ` set m" using map_of_eq_None_iff [of m c] by auto
    with c have "fst ` set m - set (c # visited) \<subset> fst ` set m - set visited" by auto
    then have "card (fst ` set m - set (c # visited)) < card (fst ` set m - set visited)"
      by (intro psubset_card_mono) auto
    with Some c show ?thesis by simp
  qed
qed

declare traverse.simps [simp del]

text \<open>
  \<^verbatim>\<open>new Set(iterable)\<close>: the distinct elements, in the order of their first occurrence.
\<close>

definition new_Set :: "'a list \<Rightarrow> 'a list" where
  "new_Set xs = rev (remdups (rev xs))"

text \<open>\<^verbatim>\<open>assignments.keys().next().value\<close>: the first key, \<^verbatim>\<open>undefined\<close> for an empty map.\<close>

definition first_key :: "assignments \<Rightarrow> string option" where
  "first_key m = (case m of [] \<Rightarrow> None | (k, v) # rest \<Rightarrow> Some k)"

definition validateAssignments :: "assignments \<Rightarrow> validation_error + unit" where
  "validateAssignments m =
     (let santas = new_Set (map fst m);
          recipients = new_Set (map snd m)
      in if length santas \<noteq> length recipients then Inl Mismatched
         else case find (\<lambda>recipient. recipient \<notin> set santas) recipients of
           Some recipient \<Rightarrow> Inl (NotASanta recipient)
         | None \<Rightarrow>
          (case find (\<lambda>(santa, recipient). santa = recipient) m of
             Some (santa, recipient) \<Rightarrow> Inl (SelfAssignment santa)
           | None \<Rightarrow>
              (let start = first_key m;
                   (visited, current) = traverse m [] start
               in if length visited \<noteq> length m
                  then Inl (MultipleCycles (length visited) (length m))
                  else if current \<noteq> start then Inl NotClosed
                  else Inr ())))"

subsection \<open>What the specification asks of an assignment\<close>

text \<open>
  The specification's words, independent of the code: \<open>follow m k x\<close> is the id reached
  from \<open>x\<close> after following the mapping \<open>k\<close> times (\<open>None\<close> once it leaves the
  mapping); \<open>tour m x\<close> lists the first \<open>n\<close> ids of the traversal that starts at \<open>x\<close>,
  \<open>n\<close> being the number of entries; \<open>single_cycle_from m x\<close> says that this traversal
  visits every key exactly once and that the next step returns to \<open>x\<close>.
\<close>

fun follow :: "('a \<times> 'a) list \<Rightarrow> nat \<Rightarrow> 'a \<Rightarrow> 'a option" where
  "follow m 0 x = Some x"
| "follow m (Suc k) x = (case map_of m x of None \<Rightarrow> None | Some y \<Rightarrow> follow m k y)"

definition tour :: "('a \<times> 'a) list \<Rightarrow> 'a \<Rightarrow> 'a option list" where
  "tour m x = map (\<lambda>k. follow m k x) [0..<length m]"

definition single_cycle_from :: "('a \<times> 'a) list \<Rightarrow> 'a \<Rightarrow> bool" where
  "single_cycle_from m x \<longleftrightarrow>
     distinct (tour m x) \<and> set (tour m x) = Some ` set (map fst m) \<and>
     follow m (length m) x = Some x"

definition keys_equal_values :: "('a \<times> 'a) list \<Rightarrow> bool" where
  "keys_equal_values m \<longleftrightarrow> set (map fst m) = set (map snd m)"

definition no_self_assignment :: "('a \<times> 'a) list \<Rightarrow> bool" where
  "no_self_assignment m \<longleftrightarrow> list_all (\<lambda>(santa, recipient). santa \<noteq> recipient) m"

text \<open>
  A cycle written out: \<open>cycle_of m cyc\<close> says that the list \<open>cyc\<close> enumerates the keys
  of \<open>m\<close> without repetition and that \<open>m\<close> sends each element to the next one, the
  last to the first.
\<close>

definition cycle_of :: "('a \<times> 'a) list \<Rightarrow> 'a list \<Rightarrow> bool" where
  "cycle_of m cyc \<longleftrightarrow>
     cyc \<noteq> [] \<and> distinct cyc \<and> set cyc = set (map fst m) \<and>
     list_all (\<lambda>q. map_of m (cyc ! q) = Some (cyc ! (Suc q mod length cyc))) [0..<length cyc]"

text \<open>
  The path that \<^const>\<open>traverse\<close> walks: \<open>chain_from m cur path c'\<close> says that the
  traversal starting with \<open>current = cur\<close> visits the ids of \<open>path\<close> in this order and
  then has \<open>current = c'\<close>.
\<close>

fun chain_from :: "assignments \<Rightarrow> string option \<Rightarrow> string list \<Rightarrow> string option \<Rightarrow> bool" where
  "chain_from m cur [] c' = (cur = c')"
| "chain_from m cur (x # xs) c' = (cur = Some x \<and> x \<noteq> [] \<and> chain_from m (map_of m x) xs c')"

section \<open>The store (lib/db/types.ts, lib/db/queries.ts)\<close>

text \<open>
  The tables are lists of rows. Columns that no guard of the modelled actions reads
  (title, description, budget, date, names, tokens, \<^verbatim>\<open>created_at\<close>) are left out;
  the list of participants is kept in \<^verbatim>\<open>created_at\<close> order, the order in which
  \<^verbatim>\<open>listParticipantsByExchange\<close> returns it. The column \<^verbatim>\<open>id\<close> is
  \<open>e_id\<close> for exchanges and \<open>p_id\<close> for participants. A nullable column is an
  \<open>option\<close>. \<^verbatim>\<open>nowUnix()\<close> is the parameter \<open>now\<close>, one value for a whole request.
\<close>

datatype ExchangeStatus = draft | collecting | ready | shuffled | complete

record Exchange =
  e_id :: string
  organizer_id :: string
  status :: ExchangeStatus
  shuffled_at :: "nat option"
  secrets_sent_at :: "nat option"
  e_updated_at :: nat

record Participant =
  p_id :: string
  exchange_id :: string
  email :: string
  questionnaire_completed_at :: "nat option"
  assigned_recipient_id :: "string option"
  p_updated_at :: nat

record Questionnaire =
  participant_id :: string
  q_name :: string

record DB =
  exchanges :: "Exchange list"
  participants :: "Participant list"
  questionnaires :: "Questionnaire list"
  organizers :: "string list"

text \<open>
  \<^verbatim>\<open>UpdateExchangeInput\<close>: every field is optional (\<open>None\<close> is \<^verbatim>\<open>undefined\<close>); the
  two timestamps may also be given as \<^verbatim>\<open>null\<close> (\<open>Some None\<close>).
\<close>

record UpdateExchangeInput =
  in_status :: "ExchangeStatus option"
  in_shuffled_at :: "nat option option"
  in_secrets_sent_at :: "nat option option"

definition findExchangeById :: "DB \<Rightarrow> string \<Rightarrow> Exchange option" where
  "findExchangeById db ident = find (\<lambda>e. e_id e = ident) (exchanges db)"

definition findExchangeByIdForOrganizer :: "DB \<Rightarrow> string \<Rightarrow> string \<Rightarrow> Exchange option" where
  "findExchangeByIdForOrganizer db ident organizerId =
     find (\<lambda>e. e_id e = ident \<and> organizer_id e = organizerId) (exchanges db)"

definition findOrganizerById :: "DB \<Rightarrow> string \<Rightarrow> string option" where
  "findOrganizerById db ident = find (\<lambda>organizer. organizer = ident) (organizers db)"

definition listParticipantsByExchange :: "DB \<Rightarrow> string \<Rightarrow> Participant list" where
  "listParticipantsByExchange db exchangeId =
     filter (\<lambda>p. exchange_id p = exchangeId) (participants db)"

definition countParticipantsByExchange :: "DB \<Rightarrow> string \<Rightarrow> nat" where
  "countParticipantsByExchange db exchangeId =
     length (filter (\<lambda>p. exchange_id p = exchangeId) (participants db))"

definition countCompletedQuestionnaires :: "DB \<Rightarrow> string \<Rightarrow> nat" where
  "countCompletedQuestionnaires db exchangeId =
     length (filter (\<lambda>p. exchange_id p = exchangeId \<and> questionnaire_completed_at p \<noteq> None)
               (participants db))"

definition areAllQuestionnairesComplete :: "DB \<Rightarrow> string \<Rightarrow> bool" where
  "areAllQuestionnairesComplete db exchangeId =
     (let total = countParticipantsByExchange db exchangeId;
          completed = countCompletedQuestionnaires db exchangeId
      in total > 0 \<and> total = completed)"

definition findParticipantById :: "DB \<Rightarrow> string \<Rightarrow> Participant option" where
  "findParticipantById db ident = find (\<lambda>p. p_id p = ident) (participants db)"

definition findParticipantByExchangeAndEmail :: "DB \<Rightarrow> string \<Rightarrow> string \<Rightarrow> Participant option" where
  "findParticipantByExchangeAndEmail db exchangeId mail =
     find (\<lambda>p. exchange_id p = exchangeId \<and> email p = mail) (participants db)"

definition findQuestionnaireByParticipant :: "DB \<Rightarrow> string \<Rightarrow> Questionnaire option" where
  "findQuestionnaireByParticipant db participantId =
     find (\<lambda>q. participant_id q = participantId) (questionnaires db)"

text \<open>
  \<^verbatim>\<open>updateExchange\<close> reads the row, throws \<^verbatim>\<open>Error("Exchange not found")\<close> when there
  is none, and then runs \<^verbatim>\<open>UPDATE exchanges SET \<dots> WHERE id = ?\<close>, each column taking
  the input's value or else the value just read. The \<^verbatim>\<open>WHERE\<close> clause names the id
  only.
\<close>

definition updateExchange :: "DB \<Rightarrow> string \<Rightarrow> UpdateExchangeInput \<Rightarrow> nat \<Rightarrow> string + DB" where
  "updateExchange db ident input now =
     (case findExchangeById db ident of
        None \<Rightarrow> Inl ''Exchange not found''
      | Some existing \<Rightarrow>
          Inr (db\<lparr>exchanges := map (\<lambda>e. if e_id e = ident
                 then e\<lparr>status := (case in_status input of Some s \<Rightarrow> s | None \<Rightarrow> status existing),
                        shuffled_at := (case in_shuffled_at input of Some t \<Rightarrow> t
                                        | None \<Rightarrow> shuffled_at existing),
                        secrets_sent_at := (case in_secrets_sent_at input of Some t \<Rightarrow> t
                                            | None \<Rightarrow> secrets_sent_at existing),
                        e_updated_at := now\<rparr>
                 else e) (exchanges db)\<rparr>))"

definition updateExchangeStatus :: "DB \<Rightarrow> string \<Rightarrow> ExchangeStatus \<Rightarrow> nat \<Rightarrow> DB" where
  "updateExchangeStatus db ident st now =
     db\<lparr>exchanges := map (\<lambda>e. if e_id e = ident then e\<lparr>status := st, e_updated_at := now\<rparr> else e)
                        (exchanges db)\<rparr>"

text \<open>
  \<^verbatim>\<open>createParticipant\<close> inserts a row; the insert fails (the driver throws) when the
  id is taken, \<^verbatim>\<open>id\<close> being the primary key.
  The table's other constraint on the columns kept here, \<^verbatim>\<open>UNIQUE\<close> on the pair of
  exchange and email, is tested by the actions themselves before they insert or update
  (\<^verbatim>\<open>findParticipantByExchangeAndEmail\<close>).
\<close>

definition createParticipant :: "DB \<Rightarrow> string \<Rightarrow> string \<Rightarrow> string \<Rightarrow> nat \<Rightarrow> string + DB" where
  "createParticipant db ident exchangeId mail now =
     (if ident \<in> set (map p_id (participants db))
      then Inl ''UNIQUE constraint failed: participants.id''
      else Inr (db\<lparr>participants := participants db @
        [\<lparr>p_id = ident, exchange_id = exchangeId, email = mail,
          questionnaire_completed_at = None, assigned_recipient_id = None,
          p_updated_at = now\<rparr>]\<rparr>))"

definition updateParticipantEmail :: "DB \<Rightarrow> string \<Rightarrow> string \<Rightarrow> nat \<Rightarrow> DB" where
  "updateParticipantEmail db ident mail now =
     db\<lparr>participants := map (\<lambda>p. if p_id p = ident then p\<lparr>email := mail, p_updated_at := now\<rparr> else p)
                           (participants db)\<rparr>"

text \<open>
  The column \<^verbatim>\<open>assigned_recipient_id\<close> is declared
  \<^verbatim>\<open>REFERENCES participants(id)\<close>, with no \<^verbatim>\<open>ON DELETE\<close> clause. So
  \<^verbatim>\<open>assignRecipient\<close> fails (the driver throws) when it would write, into a row it
  updates, a recipient id that is no participant's id.
\<close>

definition assignRecipient :: "DB \<Rightarrow> string \<Rightarrow> string \<Rightarrow> nat \<Rightarrow> string + DB" where
  "assignRecipient db participantId recipientId now =
     (if list_ex (\<lambda>p. p_id p = participantId) (participants db) \<and>
         recipientId \<notin> set (map p_id (participants db))
      then Inl ''FOREIGN KEY constraint failed''
      else Inr (db\<lparr>participants := map (\<lambda>p. if p_id p = participantId
                                   then p\<lparr>assigned_recipient_id := Some recipientId, p_updated_at := now\<rparr>
                                   else p)
                           (participants db)\<rparr>))"

text \<open>
  \<^verbatim>\<open>DELETE FROM participants WHERE id = ?\<close>. The delete fails (the driver throws) when
  a row that stays has the deleted id as its \<^verbatim>\<open>assigned_recipient_id\<close>; otherwise the
  row goes, and its questionnaire with it (\<^verbatim>\<open>ON DELETE CASCADE\<close>).
\<close>

definition deleteParticipant :: "DB \<Rightarrow> string \<Rightarrow> string + DB" where
  "deleteParticipant db ident =
     (if list_ex (\<lambda>p. p_id p = ident) (participants db) \<and>
         list_ex (\<lambda>p. p_id p \<noteq> ident \<and> assigned_recipient_id p = Some ident) (participants db)
      then Inl ''FOREIGN KEY constraint failed''
      else Inr (db\<lparr>participants := filter (\<lambda>p. p_id p \<noteq> ident) (participants db),
                  questionnaires := filter (\<lambda>q. participant_id q \<noteq> ident) (questionnaires db)\<rparr>))"

section \<open>The server actions\<close>

text \<open>
  Each action is a function from the store to a result and the store it leaves. The
  parameter \<open>user\<close> is the id of the organizer that \<^verbatim>\<open>requireAuth\<close> returns; the
  request plumbing before it (a missing database binding, the redirect of an
  unauthenticated request) is outside the model, and so are failures of the database
  driver other than those stated with the queries (\<^verbatim>\<open>updateExchange\<close> on a missing
  row, an insert with a taken id, a write or a delete that breaks the foreign key of
  \<^verbatim>\<open>assigned_recipient_id\<close>). The message every \<^verbatim>\<open>catch\<close> block returns for an
  \<^verbatim>\<open>Error\<close> is \<open>userMessage\<close>.
\<close>

definition userMessage :: string where
  "userMessage = ''Service temporarily unavailable. Please try again later.''"

subsection \<open>Shuffle (routes/exchanges/[exchangeId]/shuffle/index.tsx)\<close>

text \<open>\<^verbatim>\<open>new Map(entries)\<close>: the entries are set one after the other.\<close>

definition new_Map :: "('k \<times> 'v) list \<Rightarrow> ('k \<times> 'v) list" where
  "new_Map entries = fold (\<lambda>(k, v) m. AList.update k v m) entries []"

text \<open>
  \<open>ShuffleSuccess n\<close> is \<^verbatim>\<open>{ success: true, message, assignmentCount: n }\<close> and
  \<open>ShuffleError e\<close> is \<^verbatim>\<open>{ success: false, error: e }\<close>.

  The action has two phases. \<open>shuffle_prepare\<close> is everything up to and including the
  validation: it only reads the store. \<open>shuffle_commit\<close> is the writes that follow: one
  \<^verbatim>\<open>assignRecipient\<close> per pair and then \<^verbatim>\<open>updateExchange\<close>.
\<close>

datatype shuffle_result = ShuffleSuccess nat | ShuffleError string

definition shuffle_prepare :: "rng \<Rightarrow> string \<Rightarrow> string \<Rightarrow> DB \<Rightarrow> string + assignments" where
  "shuffle_prepare g user exchangeId db =
     (case findExchangeByIdForOrganizer db exchangeId user of
        None \<Rightarrow> Inl ''Exchange not found.''
      | Some exchange \<Rightarrow>
          if status exchange \<noteq> collecting \<and> status exchange \<noteq> ready
          then Inl ''Exchange has already been shuffled or is not ready.''
          else let ps = listParticipantsByExchange db exchangeId in
            if length ps < 2 then Inl ''Need at least 2 participants.''
            else let completedCount = countCompletedQuestionnaires db exchangeId in
              if completedCount \<noteq> length ps
              then Inl ''All participants must complete their questionnaires first.''
              else let participantIds = map p_id ps in
                (case createSecretSantaAssignments g participantIds of
                   Inl err \<Rightarrow> Inl userMessage
                 | Inr assignments \<Rightarrow>
                     let assignmentMap = new_Map assignments in
                     (case validateAssignments assignmentMap of
                        Inl err \<Rightarrow> Inl ''Shuffle validation failed. Please try again.''
                      | Inr ok \<Rightarrow> Inr assignments)))"

text \<open>
  The loop \<^verbatim>\<open>for (const [santaId, recipientId] of assignments)\<close>: the pairs are
  written one after the other, outside any transaction, so a write that throws leaves
  the earlier writes in the store. The result is the error thrown, if any, and the store.
\<close>

fun save_assignments :: "assignments \<Rightarrow> nat \<Rightarrow> DB \<Rightarrow> string option \<times> DB" where
  "save_assignments [] now db = (None, db)"
| "save_assignments ((santaId, recipientId) # rest) now db =
     (case assignRecipient db santaId recipientId now of
        Inl err \<Rightarrow> (Some err, db)
      | Inr db' \<Rightarrow> save_assignments rest now db')"

definition shuffle_commit :: "assignments \<Rightarrow> nat \<Rightarrow> string \<Rightarrow> DB \<Rightarrow> shuffle_result \<times> DB" where
  "shuffle_commit assignments now exchangeId db =
     (case save_assignments assignments now db of
        (Some err, db1) \<Rightarrow> (ShuffleError userMessage, db1)
      | (None, db1) \<Rightarrow>
         (case updateExchange db1 exchangeId
                 \<lparr>in_status = Some shuffled, in_shuffled_at = Some (Some now),
                  in_secrets_sent_at = None\<rparr> now of
            Inl err \<Rightarrow> (ShuffleError userMessage, db1)
          | Inr db2 \<Rightarrow> (ShuffleSuccess (length assignments), db2)))"

definition useShuffleAction :: "rng \<Rightarrow> nat \<Rightarrow> string \<Rightarrow> string \<Rightarrow> DB \<Rightarrow> shuffle_result \<times> DB" where
  "useShuffleAction g now user exchangeId db =
     (case shuffle_prepare g user exchangeId db of
        Inl err \<Rightarrow> (ShuffleError err, db)
      | Inr assignments \<Rightarrow> shuffle_commit assignments now exchangeId db)"

subsection \<open>Send secrets\<close>

text \<open>
  The mail service is external: \<open>mail santa\<close> is the outcome of
  \<^verbatim>\<open>emailService.sendSecretSantaAssignment\<close> for the participant \<open>santa\<close>, either
  \<^verbatim>\<open>{ success: true }\<close> or \<^verbatim>\<open>{ success: false, error? }\<close>.

  The results: \<open>SendAll n\<close> is \<^verbatim>\<open>{ success: true, message, sentCount: n }\<close>;
  \<open>SendPartial n errors\<close> is \<^verbatim>\<open>{ success: true, message, sentCount: n, errors }\<close>;
  \<open>SendNone errors\<close> is \<^verbatim>\<open>{ success: false, error: "Failed to send any emails.", errors }\<close>;
  \<open>SendError e\<close> is \<^verbatim>\<open>{ success: false, error: e }\<close>.
\<close>

datatype mail_result = MailOk | MailFailed "string option"

datatype secrets_result =
    SendAll nat
  | SendPartial nat "string list"
  | SendNone "string list"
  | SendError string

text \<open>
  One turn of the loop over the participants: \<open>Inr ()\<close> when the mail went out, else the
  line pushed onto \<^verbatim>\<open>errors\<close>. The tests \<^verbatim>\<open>!santa.assigned_recipient_id\<close> and
  \<^verbatim>\<open>result.error || "Send failed"\<close> are truthiness tests: the empty string counts as
  absent.
\<close>

definition deliver :: "(Participant \<Rightarrow> mail_result) \<Rightarrow> DB \<Rightarrow> Participant list \<Rightarrow> Participant \<Rightarrow> string + unit" where
  "deliver mail db ps santa =
     (if \<not> truthy (assigned_recipient_id santa) then Inl (email santa @ '': No assignment found'')
      else case map_of (new_Map (map (\<lambda>p. (p_id p, p)) ps)) (the (assigned_recipient_id santa)) of
        None \<Rightarrow> Inl (email santa @ '': Recipient not found'')
      | Some recipient \<Rightarrow>
         (case findQuestionnaireByParticipant db (p_id recipient) of
            None \<Rightarrow> Inl (email santa @ '': Recipient questionnaire not found'')
          | Some questionnaire \<Rightarrow>
             (case mail santa of
                MailOk \<Rightarrow> Inr ()
              | MailFailed e \<Rightarrow>
                  Inl (email santa @ '': '' @ (if truthy e then the e else ''Send failed'')))))"

text \<open>
  The loop: the state is \<^verbatim>\<open>sentCount\<close>, \<^verbatim>\<open>errors\<close>, and (for the record of what
  was done) the ids of the participants for whom the mail service was called.
\<close>

definition mail_called :: "DB \<Rightarrow> Participant list \<Rightarrow> Participant \<Rightarrow> bool" where
  "mail_called db ps santa \<longleftrightarrow>
     truthy (assigned_recipient_id santa) \<and>
     (case map_of (new_Map (map (\<lambda>p. (p_id p, p)) ps)) (the (assigned_recipient_id santa)) of
        None \<Rightarrow> False
      | Some recipient \<Rightarrow> findQuestionnaireByParticipant db (p_id recipient) \<noteq> None)"

fun send_loop :: "(Participant \<Rightarrow> mail_result) \<Rightarrow> DB \<Rightarrow> Participant list \<Rightarrow> Participant list \<Rightarrow>
    nat \<times> string list \<times> string list \<Rightarrow> nat \<times> string list \<times> string list" where
  "send_loop mail db ps [] acc = acc"
| "send_loop mail db ps (santa # rest) (sentCount, errors, called) =
     send_loop mail db ps rest
       (case deliver mail db ps santa of
          Inr ok \<Rightarrow> (sentCount + 1, errors, called @ [p_id santa])
        | Inl line \<Rightarrow> (sentCount, errors @ [line],
                       if mail_called db ps santa then called @ [p_id santa] else called))"

definition useSendSecretsAction ::
    "(Participant \<Rightarrow> mail_result) \<Rightarrow> nat \<Rightarrow> string \<Rightarrow> string \<Rightarrow> DB \<Rightarrow> secrets_result \<times> DB \<times> string list" where
  "useSendSecretsAction mail now user exchangeId db =
     (case findExchangeByIdForOrganizer db exchangeId user of
        None \<Rightarrow> (SendError ''Exchange not found.'', db, [])
      | Some exchange \<Rightarrow>
          if status exchange \<noteq> shuffled
          then (SendError ''Exchange must be shuffled before sending secrets.'', db, [])
          else if secrets_sent_at exchange \<noteq> None
          then (SendError ''Secrets have already been sent.'', db, [])
          else let ps = listParticipantsByExchange db exchangeId;
                   (sentCount, errors, called) = send_loop mail db ps ps (0, [], [])
               in if sentCount = length ps
                  then (case updateExchange db exchangeId
                               \<lparr>in_status = Some complete, in_shuffled_at = None,
                                in_secrets_sent_at = Some (Some now)\<rparr> now of
                          Inl err \<Rightarrow> (SendError userMessage, db, called)
                        | Inr db' \<Rightarrow> (SendAll sentCount, db', called))
                  else if sentCount > 0
                  then (case updateExchange db exchangeId
                               \<lparr>in_status = None, in_shuffled_at = None,
                                in_secrets_sent_at = Some (Some now)\<rparr> now of
                          Inl err \<Rightarrow> (SendError userMessage, db, called)
                        | Inr db' \<Rightarrow> (SendPartial sentCount errors, db', called))
                  else (SendNone errors, db, called))"

subsection \<open>Participants (the route module of the exchange page)\<close>

text \<open>
  \<open>ActionOk\<close> is \<^verbatim>\<open>{ success: true, message }\<close>, \<open>ActionError e\<close> is
  \<^verbatim>\<open>{ success: false, error: e }\<close>. The new participant's id (\<^verbatim>\<open>generateId()\<close>) and
  the normalised email are parameters.
\<close>

datatype action_result = ActionOk | ActionError string

definition useAddParticipant :: "string \<Rightarrow> string \<Rightarrow> nat \<Rightarrow> string \<Rightarrow> string \<Rightarrow> DB \<Rightarrow> action_result \<times> DB" where
  "useAddParticipant mail participantId now user exchangeId db =
     (case findExchangeByIdForOrganizer db exchangeId user of
        None \<Rightarrow> (ActionError ''Exchange not found.'', db)
      | Some exchange \<Rightarrow>
          if status exchange \<noteq> draft \<and> status exchange \<noteq> collecting
          then (ActionError ''Cannot add participants after shuffling.'', db)
          else (case findParticipantByExchangeAndEmail db exchangeId mail of
                  Some existing \<Rightarrow> (ActionError ''This email is already added to the exchange.'', db)
                | None \<Rightarrow>
                   (case createParticipant db participantId exchangeId mail now of
                      Inl err \<Rightarrow> (ActionError userMessage, db)
                    | Inr db1 \<Rightarrow>
                        let db2 = (if status exchange = draft
                                   then updateExchangeStatus db1 exchangeId collecting now else db1)
                        in (ActionOk, db2))))"

text \<open>\<open>valid\<close> is the outcome of \<^verbatim>\<open>isValidEmail(newEmail)\<close>.\<close>

definition useUpdateParticipantEmail ::
    "string \<Rightarrow> bool \<Rightarrow> string \<Rightarrow> nat \<Rightarrow> string \<Rightarrow> string \<Rightarrow> DB \<Rightarrow> action_result \<times> DB" where
  "useUpdateParticipantEmail newEmail valid participantId now user exchangeId db =
     (case findExchangeByIdForOrganizer db exchangeId user of
        None \<Rightarrow> (ActionError ''Exchange not found.'', db)
      | Some exchange \<Rightarrow>
         (case findParticipantById db participantId of
            None \<Rightarrow> (ActionError ''Participant not found.'', db)
          | Some participant \<Rightarrow>
              if exchange_id participant \<noteq> exchangeId
              then (ActionError ''Participant not found.'', db)
              else if \<not> valid then (ActionError ''Please enter a valid email address.'', db)
              else (case findParticipantByExchangeAndEmail db exchangeId newEmail of
                      Some existing \<Rightarrow>
                        if p_id existing \<noteq> p_id participant
                        then (ActionError ''This email is already in the exchange.'', db)
                        else (ActionOk, updateParticipantEmail db participantId newEmail now)
                    | None \<Rightarrow> (ActionOk, updateParticipantEmail db participantId newEmail now))))"

definition useRemoveParticipant :: "string \<Rightarrow> string \<Rightarrow> string \<Rightarrow> DB \<Rightarrow> action_result \<times> DB" where
  "useRemoveParticipant participantId user exchangeId db =
     (case findExchangeByIdForOrganizer db exchangeId user of
        None \<Rightarrow> (ActionError ''Exchange not found.'', db)
      | Some exchange \<Rightarrow>
          if status exchange = shuffled \<or> status exchange = complete
          then (ActionError ''Cannot remove participants after shuffling.'', db)
          else (case findParticipantById db participantId of
                  None \<Rightarrow> (ActionError ''Participant not found.'', db)
                | Some participant \<Rightarrow>
                    if exchange_id participant \<noteq> exchangeId
                    then (ActionError ''Participant not found.'', db)
                    else (case deleteParticipant db participantId of
                            Inl err \<Rightarrow> (ActionError userMessage, db)
                          | Inr db' \<Rightarrow> (ActionOk, db'))))"

subsection \<open>Editing the exchange (the route module of the edit page)\<close>

text \<open>
  The edit form changes title, description, budget and date; its
  \<^verbatim>\<open>updateExchange\<close> call passes no status and no timestamp.
\<close>

definition useUpdateExchange :: "nat \<Rightarrow> string \<Rightarrow> string \<Rightarrow> DB \<Rightarrow> action_result \<times> DB" where
  "useUpdateExchange now user exchangeId db =
     (case findExchangeByIdForOrganizer db exchangeId user of
        None \<Rightarrow> (ActionError ''Exchange not found.'', db)
      | Some exchange \<Rightarrow>
          if status exchange = shuffled \<or> status exchange = complete
          then (ActionError ''Cannot edit after shuffling.'', db)
          else (case updateExchange db exchangeId
                       \<lparr>in_status = None, in_shuffled_at = None, in_secrets_sent_at = None\<rparr> now of
                  Inl err \<Rightarrow> (ActionError userMessage, db)
                | Inr db' \<Rightarrow> (ActionOk, db')))"

subsection \<open>The questionnaire-completion check (lib/exchanges/notifications.ts)\<close>

text \<open>
  \<^verbatim>\<open>checkAndNotifyAllComplete\<close> returns \<^verbatim>\<open>{ notified, error? }\<close>, here the pair of the
  flag and the optional error. \<open>mail_ok\<close> is the outcome of the mail to the organizer.
\<close>

definition checkAndNotifyAllComplete :: "bool \<Rightarrow> nat \<Rightarrow> string \<Rightarrow> DB \<Rightarrow> (bool \<times> string option) \<times> DB" where
  "checkAndNotifyAllComplete mail_ok now exchangeId db =
     (if \<not> areAllQuestionnairesComplete db exchangeId then ((False, None), db)
      else case findExchangeById db exchangeId of
        None \<Rightarrow> ((False, Some ''Exchange not found''), db)
      | Some exchange \<Rightarrow>
          if status exchange \<noteq> collecting then ((False, None), db)
          else let db' = updateExchangeStatus db exchangeId ready now in
            (case findOrganizerById db' (organizer_id exchange) of
               None \<Rightarrow> ((False, Some ''Organizer not found''), db')
             | Some organizer \<Rightarrow>
                 if \<not> mail_ok then ((False, Some ''Failed to send email''), db')
                 else ((True, None), db')))"

subsection \<open>Sequences of operations\<close>

text \<open>
  The operations of the application that write to the rows of existing exchanges or to
  their participants, with their request parameters, and the store after running a
  sequence of them one after the other. (Creating and deleting an exchange inserts or
  removes a row; submitting a questionnaire writes to the participant and the
  questionnaire only.)
\<close>

datatype operation =
    AddParticipant string string nat string string
  | UpdateParticipantEmail string bool string nat string string
  | RemoveParticipant string string string
  | EditExchange nat string string
  | CompletionCheck bool nat string
  | Shuffle rng nat string string
  | SendSecrets "Participant \<Rightarrow> mail_result" nat string string

fun apply_operation :: "operation \<Rightarrow> DB \<Rightarrow> DB" where
  "apply_operation (AddParticipant mail pid now user x) db = snd (useAddParticipant mail pid now user x db)"
| "apply_operation (UpdateParticipantEmail mail valid pid now user x) db =
     snd (useUpdateParticipantEmail mail valid pid now user x db)"
| "apply_operation (RemoveParticipant pid user x) db = snd (useRemoveParticipant pid user x db)"
| "apply_operation (EditExchange now user x) db = snd (useUpdateExchange now user x db)"
| "apply_operation (CompletionCheck mail_ok now x) db = snd (checkAndNotifyAllComplete mail_ok now x db)"
| "apply_operation (Shuffle g now user x) db = snd (useShuffleAction g now user x db)"
| "apply_operation (SendSecrets mail now user x) db = fst (snd (useSendSecretsAction mail now user x db))"

definition run :: "operation list \<Rightarrow> DB \<Rightarrow> DB" where
  "run ops db = fold apply_operation ops db"

text \<open>The order Draft < Collecting < Ready < Shuffled < Complete.\<close>

fun rank :: "ExchangeStatus \<Rightarrow> nat" where
  "rank draft = 0"
| "rank collecting = 1"
| "rank ready = 2"
| "rank shuffled = 3"
| "rank complete = 4"

text \<open>
  \<open>status_advanced es es'\<close>: the table \<open>es'\<close> has the rows of \<open>es\<close>, in the same order
  and with the same ids, each with a status that is the same or later in the order.
\<close>

definition status_advanced :: "Exchange list \<Rightarrow> Exchange list \<Rightarrow> bool" where
  "status_advanced es es' \<longleftrightarrow>
     list_all2 (\<lambda>e e'. e_id e' = e_id e \<and> rank (status e) \<le> rank (status e')) es es'"

subsection \<open>Outcome of the deliveries\<close>

text \<open>
  In the words of the specification, not of the handler: the delivery to a participant
  succeeds when the participant has an assignment edge, the edge is the id of a
  participant of the exchange, that recipient has a questionnaire, and the delivery
  capability reports success for the participant. \<open>sent_count\<close> is the number of
  participants whose delivery succeeds and \<open>failed_deliveries\<close> lists the others, in
  the order of the participants. A failure line names its participant when it starts
  with the participant's email followed by a colon and a space.
\<close>

definition delivery_succeeds :: "(Participant \<Rightarrow> mail_result) \<Rightarrow> DB \<Rightarrow> Participant list \<Rightarrow> Participant \<Rightarrow> bool" where
  "delivery_succeeds mail db ps santa \<longleftrightarrow>
     (case assigned_recipient_id santa of
        None \<Rightarrow> False
      | Some r \<Rightarrow> r \<in> set (map p_id ps) \<and>
                 r \<in> set (map participant_id (questionnaires db)) \<and>
                 mail santa = MailOk)"

definition sent_count :: "(Participant \<Rightarrow> mail_result) \<Rightarrow> DB \<Rightarrow> Participant list \<Rightarrow> nat" where
  "sent_count mail db ps = length (filter (delivery_succeeds mail db ps) ps)"

definition failed_deliveries :: "(Participant \<Rightarrow> mail_result) \<Rightarrow> DB \<Rightarrow> Participant list \<Rightarrow> Participant list" where
  "failed_deliveries mail db ps = filter (\<lambda>santa. \<not> delivery_succeeds mail db ps santa) ps"

definition names_participant :: "Participant \<Rightarrow> string \<Rightarrow> bool" where
  "names_participant santa line \<longleftrightarrow> take (length (email santa) + 2) line = email santa @ '': ''"

text \<open>The ids that \<^verbatim>\<open>generateId()\<close> returns are 24 hexadecimal digits, never empty.\<close>

definition participant_ids_nonempty :: "DB \<Rightarrow> bool" where
  "participant_ids_nonempty db \<longleftrightarrow> [] \<notin> set (map p_id (participants db))"

text \<open>
  The primary keys of the two tables, and the condition under which the application
  keeps its stores: ids are unique, and an exchange that is Shuffled or Complete has at
  least two participants.
\<close>

definition exchange_ids_unique :: "DB \<Rightarrow> bool" where
  "exchange_ids_unique db \<longleftrightarrow> distinct (map e_id (exchanges db))"

definition participant_ids_unique :: "DB \<Rightarrow> bool" where
  "participant_ids_unique db \<longleftrightarrow> distinct (map p_id (participants db))"

definition shuffled_have_participants :: "DB \<Rightarrow> bool" where
  "shuffled_have_participants db \<longleftrightarrow>
     list_all (\<lambda>e. rank (status e) < 3 \<or> 2 \<le> countParticipantsByExchange db (e_id e))
       (exchanges db)"

definition store_ok :: "DB \<Rightarrow> bool" where
  "store_ok db \<longleftrightarrow>
     exchange_ids_unique db \<and> participant_ids_unique db \<and> shuffled_have_participants db"

section \<open>Example stores\<close>

text \<open>
  An exchange \<open>x\<close> of organizer \<open>u\<close> with three participants \<open>a\<close>, \<open>b\<close>, \<open>c\<close> who have all
  completed their questionnaires, in a given status; and the same exchange after a
  shuffle at time 5 that assigned a to b, b to c and c to a.
\<close>

definition example_participant :: "string \<Rightarrow> string option \<Rightarrow> nat \<Rightarrow> Participant" where
  "example_participant i recipient t =
     \<lparr>p_id = i, exchange_id = ''x'', email = i @ ''@example.org'',
      questionnaire_completed_at = Some 1, assigned_recipient_id = recipient, p_updated_at = t\<rparr>"

definition example_questionnaires :: "Questionnaire list" where
  "example_questionnaires =
     [\<lparr>participant_id = ''a'', q_name = ''A''\<rparr>,
      \<lparr>participant_id = ''b'', q_name = ''B''\<rparr>,
      \<lparr>participant_id = ''c'', q_name = ''C''\<rparr>]"

definition example_store :: "ExchangeStatus \<Rightarrow> DB" where
  "example_store st =
     \<lparr>exchanges = [\<lparr>e_id = ''x'', organizer_id = ''u'', status = st, shuffled_at = None,
                    secrets_sent_at = None, e_updated_at = 1\<rparr>],
      participants = [example_participant ''a'' None 1, example_participant ''b'' None 1,
                      example_participant ''c'' None 1],
      questionnaires = example_questionnaires,
      organizers = [''u'']\<rparr>"

definition example_shuffled :: "nat option \<Rightarrow> nat \<Rightarrow> DB" where
  "example_shuffled sent t =
     \<lparr>exchanges = [\<lparr>e_id = ''x'', organizer_id = ''u'', status = shuffled, shuffled_at = Some 5,
                    secrets_sent_at = sent, e_updated_at = t\<rparr>],
      participants = [example_participant ''a'' (Some ''b'') 5, example_participant ''b'' (Some ''c'') 5,
                      example_participant ''c'' (Some ''a'') 5],
      questionnaires = example_questionnaires,
      organizers = [''u'']\<rparr>"

text \<open>
  A mail service that fails for participant \<open>c\<close> only, one that never fails, and one
  that fails for \<open>b\<close> with an error text and for \<open>c\<close> without.
\<close>

definition mail_fails_for_b_and_c :: "Participant \<Rightarrow> mail_result" where
  "mail_fails_for_b_and_c santa =
     (if p_id santa = ''b'' then MailFailed (Some ''Mailbox full'')
      else if p_id santa = ''c'' then MailFailed None else MailOk)"


definition mail_fails_for_c :: "Participant \<Rightarrow> mail_result" where
  "mail_fails_for_c santa = (if p_id santa = ''c'' then MailFailed None else MailOk)"

definition mail_works :: "Participant \<Rightarrow> mail_result" where
  "mail_works santa = MailOk"

section \<open>Properties of the validator\<close>

text \<open>
  The traversal of the validator is related to a cycle written out as a list
  (\<open>cycle_of\<close>), and that to the specification's traversal (\<open>single_cycle_from\<close>).
\<close>


lemma new_Set_distinct: "distinct xs \<Longrightarrow> new_Set xs = xs"
  by (simp add: new_Set_def distinct_remdups_id)

lemma set_new_Set: "set (new_Set xs) = set xs"
  by (simp add: new_Set_def)

lemma length_new_Set: "length (new_Set xs) = card (set xs)"
  by (simp add: new_Set_def length_remdups_card_conv)

lemma traverse_chain:
  "traverse m visited current = (v', c') \<Longrightarrow>
   \<exists>path. v' = rev path @ visited \<and> chain_from m current path c' \<and>
     (distinct visited \<longrightarrow> distinct v') \<and> (truthy c' \<longrightarrow> the c' \<in> set v')"
proof (induction m visited current arbitrary: v' c' rule: traverse.induct)
  case (1 m visited current)
  show ?case
  proof (cases "truthy current \<and> the current \<notin> set visited")
    case True
    then obtain c where c: "current = Some c" "c \<noteq> []" "c \<notin> set visited"
      by (cases current) (auto simp: truthy_def)
    from True "1.prems" have "traverse m (c # visited) (map_of m c) = (v', c')"
      using c by (subst (asm) traverse.simps) simp
    from "1.IH" [OF True] this c obtain path where
      p: "v' = rev path @ c # visited" "chain_from m (map_of m c) path c'"
         "distinct (c # visited) \<longrightarrow> distinct v'" "truthy c' \<longrightarrow> the c' \<in> set v'"
      by auto
    show ?thesis
      by (rule exI [of _ "c # path"]) (use p c in auto)
  next
    case False
    with "1.prems" have "v' = visited \<and> c' = current"
      by (subst (asm) traverse.simps) auto
    with False show ?thesis
      by (intro exI [of _ "[]"]) auto
  qed
qed

lemma chain_from_nth:
  "chain_from m cur path c' \<Longrightarrow> Suc q < length path \<Longrightarrow> map_of m (path ! q) = Some (path ! Suc q)"
proof (induction path arbitrary: cur q)
  case Nil then show ?case by simp
next
  case (Cons x xs)
  show ?case
  proof (cases q)
    case 0
    with Cons.prems show ?thesis by (cases xs) auto
  next
    case (Suc q')
    with Cons.prems Cons.IH [of "map_of m x" q'] show ?thesis by auto
  qed
qed

lemma chain_from_ends:
  "chain_from m cur path c' \<Longrightarrow> path \<noteq> [] \<Longrightarrow> cur = Some (hd path) \<and> map_of m (last path) = c'"
  by (induction path arbitrary: cur) (auto split: if_splits)


lemma follow_Suc_end:
  "follow m (Suc k) x = (case follow m k x of None \<Rightarrow> None | Some y \<Rightarrow> map_of m y)"
proof (induction k arbitrary: x)
  case 0
  then show ?case by (simp split: option.splits)
next
  case (Suc k)
  show ?case
  proof (cases "map_of m x")
    case None
    then show ?thesis by simp
  next
    case (Some y)
    have "follow m (Suc (Suc k)) x = follow m (Suc k) y" using Some by simp
    also have "\<dots> = (case follow m k y of None \<Rightarrow> None | Some z \<Rightarrow> map_of m z)"
      by (rule Suc.IH)
    also have "follow m k y = follow m (Suc k) x" using Some by simp
    finally show ?thesis .
  qed
qed

lemma cycle_of_nth:
  "cycle_of m cyc \<Longrightarrow> q < length cyc \<Longrightarrow> map_of m (cyc ! q) = Some (cyc ! (Suc q mod length cyc))"
  by (simp add: cycle_of_def list_all_iff)

lemma follow_cycle:
  "cycle_of m cyc \<Longrightarrow> p < length cyc \<Longrightarrow>
   follow m k (cyc ! p) = Some (cyc ! ((p + k) mod length cyc))"
proof (induction k arbitrary: p)
  case 0 then show ?case by simp
next
  case (Suc k)
  have "Suc p mod length cyc < length cyc" using Suc.prems(2) by (intro mod_less_divisor) auto
  from Suc.IH [OF Suc.prems(1) this] cycle_of_nth [OF Suc.prems]
  show ?case by (simp add: mod_add_left_eq)
qed

lemma cycle_of_length:
  "cycle_of m cyc \<Longrightarrow> distinct (map fst m) \<Longrightarrow> length cyc = length m"
proof -
  assume c: "cycle_of m cyc" and d: "distinct (map fst m)"
  have dc: "distinct cyc" and e: "set cyc = set (map fst m)"
    using c by (simp_all only: cycle_of_def)
  have "length cyc = card (set cyc)" using distinct_card [OF dc] by simp
  also have "\<dots> = card (set (map fst m))" by (simp only: e)
  also have "\<dots> = length (map fst m)" using d by (rule distinct_card)
  finally show ?thesis by simp
qed

lemma tour_cycle:
  assumes "cycle_of m cyc" "distinct (map fst m)" "p < length cyc"
  shows "tour m (cyc ! p) = map Some (rotate p cyc)"
proof (rule nth_equalityI)
  show "length (tour m (cyc ! p)) = length (map Some (rotate p cyc))"
    using assms by (simp add: tour_def cycle_of_length)
next
  fix i assume "i < length (tour m (cyc ! p))"
  then have i: "i < length cyc" using assms by (simp add: tour_def cycle_of_length)
  then show "tour m (cyc ! p) ! i = map Some (rotate p cyc) ! i"
    using assms by (simp add: tour_def cycle_of_length follow_cycle nth_rotate)
qed

lemma cycle_of_single_cycle_from:
  assumes "cycle_of m cyc" "distinct (map fst m)" "x \<in> set cyc"
  shows "single_cycle_from m x"
proof -
  from assms(3) obtain p where p: "p < length cyc" "x = cyc ! p"
    by (auto simp: in_set_conv_nth)
  have t: "tour m x = map Some (rotate p cyc)"
    using tour_cycle [OF assms(1,2) p(1)] p by simp
  have d: "distinct (tour m x)"
    using assms(1) by (simp add: t distinct_map cycle_of_def)
  have s: "set (tour m x) = Some ` set (map fst m)"
    using assms(1) by (simp add: t cycle_of_def)
  have "follow m (length cyc) x = Some x"
    using follow_cycle [OF assms(1) p(1), of "length cyc"] p by simp
  then show ?thesis
    using d s assms by (simp add: single_cycle_from_def cycle_of_length)
qed

lemma single_cycle_from_cycle_of:
  assumes "single_cycle_from m x" "m \<noteq> []"
  shows "cycle_of m (map the (tour m x)) \<and> hd (map the (tour m x)) = x"
proof -
  let ?n = "length m"
  let ?cyc = "map the (tour m x)"
  have n: "0 < ?n" using assms by simp
  have len: "length ?cyc = ?n" by (simp add: tour_def)
  have d: "distinct (tour m x)" and s: "set (tour m x) = Some ` set (map fst m)"
    and r: "follow m ?n x = Some x"
    using assms by (simp_all add: single_cycle_from_def)
  have some: "follow m q x = Some (?cyc ! q)" if "q < ?n" for q
  proof -
    have "follow m q x \<in> set (tour m x)" using that by (simp add: tour_def)
    with s obtain y where "follow m q x = Some y" by auto
    then show ?thesis using that by (simp add: tour_def)
  qed
  have inj: "inj_on the (set (tour m x))"
    using s by (auto simp: inj_on_def)
  have dc: "distinct ?cyc" using d inj by (simp add: distinct_map)
  have "set ?cyc = the ` set (tour m x)" by simp
  also have "\<dots> = the ` Some ` set (map fst m)" by (simp only: s)
  also have "\<dots> = set (map fst m)" by (simp only: image_image option.sel image_ident)
  finally have sc: "set ?cyc = set (map fst m)" .
  have step: "map_of m (?cyc ! q) = Some (?cyc ! (Suc q mod ?n))" if "q < ?n" for q
  proof (cases "Suc q < ?n")
    case True
    from some [OF that] some [OF True] show ?thesis
      using True by (simp add: follow_Suc_end del: follow.simps)
  next
    case False
    then have e: "Suc q = ?n" using that by simp
    have c0: "?cyc ! 0 = x" using some [OF n] by simp
    have "map_of m (?cyc ! q) = follow m (Suc q) x"
      using some [OF that] by (simp add: follow_Suc_end del: follow.simps)
    also have "\<dots> = Some x" using r e by simp
    finally show ?thesis using c0 e by simp
  qed
  have hd: "hd ?cyc = x"
    using some [OF n] n by (simp add: hd_conv_nth tour_def)
  have ne: "?cyc \<noteq> []" using n len by auto
  have "list_all (\<lambda>q. map_of m (?cyc ! q) = Some (?cyc ! (Suc q mod length ?cyc))) [0..<length ?cyc]"
    unfolding list_all_iff len using step by simp
  with ne dc sc hd show ?thesis
    unfolding cycle_of_def by blast
qed


lemma checks_1_2:
  assumes d: "distinct (map fst m)"
  shows "keys_equal_values m \<longleftrightarrow>
           length (new_Set (map fst m)) = length (new_Set (map snd m)) \<and>
           find (\<lambda>recipient. recipient \<notin> set (new_Set (map fst m))) (new_Set (map snd m)) = None"
proof -
  have c: "card (set (map fst m)) = length m" using distinct_card [OF d] by simp
  have f: "find (\<lambda>r. r \<notin> set (new_Set (map fst m))) (new_Set (map snd m)) = None
             \<longleftrightarrow> set (map snd m) \<subseteq> set (map fst m)"
    unfolding find_None_iff set_new_Set by blast
  have l: "length (new_Set (map fst m)) = length (new_Set (map snd m))
             \<longleftrightarrow> card (set (map fst m)) = card (set (map snd m))"
    unfolding length_new_Set ..
  show ?thesis
  proof
    assume "keys_equal_values m"
    then have "set (map fst m) = set (map snd m)" by (simp only: keys_equal_values_def)
    then show "length (new_Set (map fst m)) = length (new_Set (map snd m)) \<and>
           find (\<lambda>recipient. recipient \<notin> set (new_Set (map fst m))) (new_Set (map snd m)) = None"
      unfolding f l by simp
  next
    assume "length (new_Set (map fst m)) = length (new_Set (map snd m)) \<and>
           find (\<lambda>recipient. recipient \<notin> set (new_Set (map fst m))) (new_Set (map snd m)) = None"
    then have "card (set (map snd m)) = card (set (map fst m))"
      and "set (map snd m) \<subseteq> set (map fst m)"
      unfolding f l by simp_all
    then have "set (map snd m) = set (map fst m)"
      by (intro card_subset_eq) simp_all
    then show "keys_equal_values m" by (simp only: keys_equal_values_def)
  qed
qed

lemma check_3:
  "find (\<lambda>(santa, recipient). santa = recipient) m = None \<longleftrightarrow> no_self_assignment m"
  by (auto simp: find_None_iff no_self_assignment_def list_all_iff)

lemma validate_Inr_iff:
  assumes d: "distinct (map fst m)"
  shows "validateAssignments m = Inr () \<longleftrightarrow>
           keys_equal_values m \<and> no_self_assignment m \<and>
           length (fst (traverse m [] (first_key m))) = length m \<and>
           snd (traverse m [] (first_key m)) = first_key m"
proof (cases "keys_equal_values m")
  case False
  then show ?thesis
    using checks_1_2 [OF d]
    by (auto simp: validateAssignments_def Let_def split: option.splits)
next
  case ke: True
  show ?thesis
  proof (cases "no_self_assignment m")
    case False
    then have "find (\<lambda>(santa, recipient). santa = recipient) m \<noteq> None"
      by (simp only: check_3 not_False_eq_True)
    then show ?thesis
      using False ke checks_1_2 [OF d]
      by (auto simp: validateAssignments_def Let_def split: option.splits)
  next
    case True
    then have "find (\<lambda>(santa, recipient). santa = recipient) m = None"
      by (simp only: check_3)
    then show ?thesis
      using True ke checks_1_2 [OF d]
      by (auto simp: validateAssignments_def Let_def first_key_def split: option.splits prod.splits)
  qed
qed


lemma first_key_hd: "m \<noteq> [] \<Longrightarrow> first_key m = Some (fst (hd m))"
  by (cases m) (auto simp: first_key_def)

lemma traverse_sound:
  assumes d: "distinct (map fst m)" and ne: "m \<noteq> []" and ke: "keys_equal_values m"
    and len: "length (fst (traverse m [] (first_key m))) = length m"
    and cl: "snd (traverse m [] (first_key m)) = first_key m"
  shows "cycle_of m (rev (fst (traverse m [] (first_key m)))) \<and>
         hd (rev (fst (traverse m [] (first_key m)))) = fst (hd m)"
proof -
  let ?k0 = "fst (hd m)"
  obtain v c where t: "traverse m [] (first_key m) = (v, c)" by (cases "traverse m [] (first_key m)")
  from traverse_chain [OF t] obtain path where
    p: "v = rev path" "chain_from m (first_key m) path c" "distinct v"
    by auto
  have c: "c = Some ?k0" using cl t first_key_hd [OF ne] by simp
  have lp: "length path = length m" using len t p by simp
  then have pne: "path \<noteq> []" using ne by auto
  have dp: "distinct path" using p by simp
  from chain_from_ends [OF p(2) pne] first_key_hd [OF ne] c
  have h: "hd path = ?k0" and l: "map_of m (last path) = Some ?k0" by simp_all
  have keys: "path ! q \<in> set (map fst m)" if "q < length path" for q
  proof (cases q)
    case 0
    then show ?thesis using h pne ne by (simp add: hd_conv_nth)
  next
    case (Suc q')
    with that chain_from_nth [OF p(2), of q'] have "map_of m (path ! q') = Some (path ! q)" by simp
    then have "(path ! q', path ! q) \<in> set m" by (rule map_of_SomeD)
    then have "path ! q \<in> set (map snd m)" by force
    then show ?thesis using ke by (simp only: keys_equal_values_def)
  qed
  then have sub: "set path \<subseteq> set (map fst m)" by (auto simp: in_set_conv_nth)
  have "card (set path) = length m" using distinct_card [OF dp] lp by simp
  moreover have "card (set (map fst m)) = length m" using distinct_card [OF d] by simp
  ultimately have sp: "set path = set (map fst m)"
    using sub by (intro card_subset_eq) simp_all
  have step: "map_of m (path ! q) = Some (path ! (Suc q mod length path))" if "q < length path" for q
  proof (cases "Suc q < length path")
    case True
    then show ?thesis using chain_from_nth [OF p(2) True] by simp
  next
    case False
    then have e: "Suc q = length path" using that by simp
    then have "q = length path - 1" by simp
    then have "path ! q = last path" using last_conv_nth [OF pne] by simp
    moreover have "path ! 0 = ?k0" using h pne by (simp add: hd_conv_nth)
    ultimately show ?thesis using l e by simp
  qed
  have "list_all (\<lambda>q. map_of m (path ! q) = Some (path ! (Suc q mod length path))) [0..<length path]"
    unfolding list_all_iff using step by simp
  with pne dp sp have "cycle_of m path" unfolding cycle_of_def by blast
  then show ?thesis using t p h by simp
qed

lemma traverse_cycle:
  assumes c: "cycle_of m cyc" and t: "[] \<notin> set cyc"
  shows "q \<le> length cyc \<Longrightarrow>
         traverse m (rev (take q cyc)) (Some (cyc ! (q mod length cyc))) = (rev cyc, Some (cyc ! 0))"
proof (induction "length cyc - q" arbitrary: q)
  case 0
  then have q: "q = length cyc" by simp
  have ne: "cyc \<noteq> []" using c by (simp add: cycle_of_def)
  then have "cyc ! 0 \<in> set cyc" by simp
  then show ?case using q by (subst traverse.simps) simp
next
  case (Suc k)
  then have q: "q < length cyc" by simp
  have dc: "distinct cyc" using c by (simp add: cycle_of_def)
  have nin: "cyc ! q \<notin> set (take q cyc)"
  proof
    assume "cyc ! q \<in> set (take q cyc)"
    then obtain i where "i < q" "cyc ! i = cyc ! q"
      using q by (auto simp: in_set_conv_nth)
    then show False using dc q by (simp add: nth_eq_iff_index_eq)
  qed
  have tr: "truthy (Some (cyc ! q))"
    using t q by (auto simp: truthy_def dest: nth_mem)
  have IH: "traverse m (rev (take (Suc q) cyc)) (Some (cyc ! (Suc q mod length cyc)))
              = (rev cyc, Some (cyc ! 0))"
    using Suc.hyps(1) [of "Suc q"] Suc.hyps(2) q by simp
  have "traverse m (rev (take q cyc)) (Some (cyc ! q))
          = traverse m (cyc ! q # rev (take q cyc)) (map_of m (cyc ! q))"
    using tr nin by (subst traverse.simps) simp
  also have "cyc ! q # rev (take q cyc) = rev (take (Suc q) cyc)"
    using q by (simp add: take_Suc_conv_app_nth)
  also have "map_of m (cyc ! q) = Some (cyc ! (Suc q mod length cyc))"
    using cycle_of_nth [OF c q] .
  finally show ?case using IH q by simp
qed

lemma traverse_complete:
  assumes c: "cycle_of m cyc" and t: "[] \<notin> set cyc" and h: "hd cyc = fst (hd m)" and ne: "m \<noteq> []"
  shows "traverse m [] (first_key m) = (rev cyc, first_key m)"
proof -
  have cne: "cyc \<noteq> []" using c by (simp add: cycle_of_def)
  then have "cyc ! 0 = fst (hd m)" using h by (simp add: hd_conv_nth)
  then show ?thesis
    using traverse_cycle [OF c t, of 0] first_key_hd [OF ne] cne by simp
qed


lemma cycle_of_entry:
  assumes c: "cycle_of m cyc" and d: "distinct (map fst m)" and e: "(s, r) \<in> set m"
  shows "\<exists>q < length cyc. s = cyc ! q \<and> r = cyc ! (Suc q mod length cyc)"
proof -
  have "s \<in> set (map fst m)" using e by force
  then have "s \<in> set cyc" using c by (simp only: cycle_of_def)
  then obtain q where q: "q < length cyc" "s = cyc ! q" by (auto simp: in_set_conv_nth)
  have "map_of m s = Some r" using d e by (rule map_of_is_SomeI)
  with cycle_of_nth [OF c q(1)] q show ?thesis by auto
qed

lemma cycle_of_keys_equal_values:
  assumes c: "cycle_of m cyc" and d: "distinct (map fst m)"
  shows "keys_equal_values m"
proof -
  have ne: "0 < length cyc" and sc: "set cyc = set (map fst m)"
    using c by (simp_all add: cycle_of_def)
  have "set (map snd m) \<subseteq> set cyc"
  proof
    fix r assume "r \<in> set (map snd m)"
    then obtain s where "(s, r) \<in> set m" by auto
    from cycle_of_entry [OF c d this] ne show "r \<in> set cyc" by auto
  qed
  moreover have "set cyc \<subseteq> set (map snd m)"
  proof
    fix x assume "x \<in> set cyc"
    then obtain p where p: "p < length cyc" "x = cyc ! p" by (auto simp: in_set_conv_nth)
    let ?q = "(p + length cyc - 1) mod length cyc"
    have q: "?q < length cyc" using ne by simp
    have "Suc ?q mod length cyc = (p + length cyc) mod length cyc"
      using ne by (simp add: mod_Suc_eq)
    then have "Suc ?q mod length cyc = p" using p by simp
    with cycle_of_nth [OF c q] p have "map_of m (cyc ! ?q) = Some x" by simp
    then have "(cyc ! ?q, x) \<in> set m" by (rule map_of_SomeD)
    then show "x \<in> set (map snd m)" by force
  qed
  ultimately show ?thesis using sc by (simp add: keys_equal_values_def)
qed

lemma cycle_of_no_self_assignment:
  assumes c: "cycle_of m cyc" and d: "distinct (map fst m)" and n: "2 \<le> length cyc"
  shows "no_self_assignment m"
proof -
  have dc: "distinct cyc" using c by (simp add: cycle_of_def)
  have "s \<noteq> r" if "(s, r) \<in> set m" for s r
  proof
    assume "s = r"
    from cycle_of_entry [OF c d that] obtain q where
      q: "q < length cyc" "s = cyc ! q" "r = cyc ! (Suc q mod length cyc)" by auto
    have "Suc q mod length cyc < length cyc" using q(1) by (intro mod_less_divisor) auto
    with \<open>s = r\<close> q dc have "Suc q mod length cyc = q" by (simp add: nth_eq_iff_index_eq)
    then show False using q(1) n by (cases "Suc q < length cyc") (auto simp: not_less le_Suc_eq)
  qed
  then show ?thesis by (auto simp: no_self_assignment_def list_all_iff)
qed

lemma validate_cycle_of:
  assumes d: "distinct (map fst m)" and ne: "m \<noteq> []" and v: "validateAssignments m = Inr ()"
  shows "\<exists>cyc. cycle_of m cyc \<and> hd cyc = fst (hd m) \<and> 2 \<le> length cyc"
proof -
  from v have ke: "keys_equal_values m" and ns: "no_self_assignment m"
    and len: "length (fst (traverse m [] (first_key m))) = length m"
    and cl: "snd (traverse m [] (first_key m)) = first_key m"
    unfolding validate_Inr_iff [OF d] by simp_all
  let ?cyc = "rev (fst (traverse m [] (first_key m)))"
  from traverse_sound [OF d ne ke len cl]
  have c: "cycle_of m ?cyc" and h: "hd ?cyc = fst (hd m)" by simp_all
  have "length ?cyc \<noteq> 1"
  proof
    assume l1: "length ?cyc = 1"
    then have "length m = 1" using len by simp
    then obtain s r where m: "m = [(s, r)]" by (cases m) auto
    with ke ns show False by (simp add: keys_equal_values_def no_self_assignment_def)
  qed
  moreover have "?cyc \<noteq> []" using c by (simp add: cycle_of_def)
  ultimately have "2 \<le> length ?cyc" by (cases ?cyc) (auto simp: Suc_le_eq)
  with c h show ?thesis by blast
qed

lemma cycle_of_validate:
  assumes d: "distinct (map fst m)" and ne: "m \<noteq> []" and c: "cycle_of m cyc"
    and h: "hd cyc = fst (hd m)" and n: "2 \<le> length cyc" and t: "[] \<notin> set (map fst m)"
  shows "validateAssignments m = Inr ()"
proof -
  have t': "[] \<notin> set cyc" using t c by (simp only: cycle_of_def) auto
  have "length cyc = length m" using c d by (rule cycle_of_length)
  then show ?thesis
    unfolding validate_Inr_iff [OF d]
    using cycle_of_keys_equal_values [OF c d] cycle_of_no_self_assignment [OF c d n]
      traverse_complete [OF c t' h ne]
    by simp
qed

lemma cycle_of_rotate:
  assumes c: "cycle_of m cyc"
  shows "cycle_of m (rotate k cyc)"
proof -
  let ?n = "length cyc"
  have ne: "cyc \<noteq> []" and dc: "distinct cyc" and sc: "set cyc = set (map fst m)"
    using c by (simp_all add: cycle_of_def)
  have "map_of m (rotate k cyc ! q) = Some (rotate k cyc ! (Suc q mod ?n))" if "q < ?n" for q
  proof -
    have 1: "rotate k cyc ! q = cyc ! ((k + q) mod ?n)" using that by (simp add: nth_rotate)
    have "Suc q mod ?n < ?n" using that by (intro mod_less_divisor) auto
    then have 2: "rotate k cyc ! (Suc q mod ?n) = cyc ! ((k + Suc q mod ?n) mod ?n)"
      by (simp add: nth_rotate)
    have 3: "(k + q) mod ?n < ?n" using that by (intro mod_less_divisor) auto
    have "Suc ((k + q) mod ?n) mod ?n = (k + Suc q mod ?n) mod ?n"
      by (simp add: mod_Suc_eq mod_add_right_eq)
    with cycle_of_nth [OF c 3] 1 2 show ?thesis by simp
  qed
  then have "list_all (\<lambda>q. map_of m (rotate k cyc ! q) = Some (rotate k cyc ! (Suc q mod length (rotate k cyc))))
       [0..<length (rotate k cyc)]"
    unfolding list_all_iff by simp
  then show ?thesis using ne dc sc unfolding cycle_of_def by simp
qed


text \<open>
  For a map whose keys are non-empty strings, the validator answers valid exactly when
  the three checks of the specification hold; the traversal may start from the first
  key or from any key.
\<close>

lemma validateAssignments_iff:
  assumes d: "distinct (map fst m)" and ne: "m \<noteq> []" and t: "[] \<notin> set (map fst m)"
  shows "validateAssignments m = Inr () \<longleftrightarrow>
           keys_equal_values m \<and> no_self_assignment m \<and> single_cycle_from m (fst (hd m))"
proof
  assume "validateAssignments m = Inr ()"
  from validate_cycle_of [OF d ne this] obtain cyc where
    c: "cycle_of m cyc" and h: "hd cyc = fst (hd m)" and n: "2 \<le> length cyc" by blast
  have "cyc \<noteq> []" using n by auto
  then have "fst (hd m) \<in> set cyc" using h by (metis hd_in_set)
  with c d have "single_cycle_from m (fst (hd m))" by (rule cycle_of_single_cycle_from)
  with cycle_of_keys_equal_values [OF c d] cycle_of_no_self_assignment [OF c d n]
  show "keys_equal_values m \<and> no_self_assignment m \<and> single_cycle_from m (fst (hd m))"
    by simp
next
  assume a: "keys_equal_values m \<and> no_self_assignment m \<and> single_cycle_from m (fst (hd m))"
  let ?cyc = "map the (tour m (fst (hd m)))"
  from a single_cycle_from_cycle_of [OF _ ne, of "fst (hd m)"]
  have c: "cycle_of m ?cyc" and h: "hd ?cyc = fst (hd m)" by simp_all
  have l: "length ?cyc = length m" by (simp add: tour_def)
  have "length m \<noteq> 1"
  proof
    assume "length m = 1"
    then obtain s r where "m = [(s, r)]" by (cases m) auto
    with a show False by (auto simp: keys_equal_values_def no_self_assignment_def)
  qed
  then have "2 \<le> length ?cyc" using ne l by (cases m) (auto simp: Suc_le_eq)
  with d ne c h show "validateAssignments m = Inr ()" using t by (rule cycle_of_validate)
qed

lemma validateAssignments_any_start:
  assumes d: "distinct (map fst m)" and ne: "m \<noteq> []" and v: "validateAssignments m = Inr ()"
    and x: "x \<in> set (map fst m)"
  shows "single_cycle_from m x"
proof -
  from validate_cycle_of [OF d ne v] obtain cyc where c: "cycle_of m cyc" by blast
  then have "x \<in> set cyc" using x by (simp only: cycle_of_def)
  with c d show ?thesis by (rule cycle_of_single_cycle_from)
qed

text \<open>
  The checks are made in the order of the specification: the error names the first
  check that fails.
\<close>

lemma validateAssignments_order:
  assumes d: "distinct (map fst m)" and e: "validateAssignments m = Inl err"
  shows "(\<not> keys_equal_values m \<longrightarrow> err = Mismatched \<or> (\<exists>r. err = NotASanta r)) \<and>
         (keys_equal_values m \<and> \<not> no_self_assignment m \<longrightarrow> (\<exists>s. err = SelfAssignment s)) \<and>
         (keys_equal_values m \<and> no_self_assignment m \<longrightarrow>
            (\<exists>v. err = MultipleCycles v (length m)) \<or> err = NotClosed)"
  using e checks_1_2 [OF d] check_3 [of m]
  by (auto simp: validateAssignments_def Let_def split: if_splits option.splits prod.splits)

lemma validateAssignments_four_cycle:
  "validateAssignments [(''A'', ''B''), (''B'', ''C''), (''C'', ''D''), (''D'', ''A'')] = Inr ()"
  by (simp add: validateAssignments_def new_Set_def first_key_def traverse.simps truthy_def)

text \<open>
  The hypothesis on the keys cannot be dropped. The map \<open>{"": "a", "a": ""}\<close> passes
  the three checks (it is a single 2-cycle), yet the validator answers "Multiple cycles
  detected. Only 0 of 2 participants in main cycle": the traversal starts at the first
  key, the empty string, which the test \<^verbatim>\<open>current &&\<close> takes for an absent value, so
  the loop body never runs. No participant has the empty id.
\<close>

lemma validateAssignments_empty_string_id:
  "keys_equal_values [('''', ''a''), (''a'', '''')] \<and>
   no_self_assignment [('''', ''a''), (''a'', '''')] \<and>
   single_cycle_from [('''', ''a''), (''a'', '''')] '''' \<and>
   single_cycle_from [('''', ''a''), (''a'', '''')] ''a'' \<and>
   validateAssignments [('''', ''a''), (''a'', '''')] = Inl (MultipleCycles 0 2)"
  by (auto simp: keys_equal_values_def no_self_assignment_def single_cycle_from_def tour_def
      validateAssignments_def new_Set_def first_key_def traverse.simps truthy_def)

text \<open>
  Claim C3. For every non-empty finite map from ids to ids (a map has distinct keys; an
  id is a non-empty string) the validator returns valid exactly when all three checks
  hold: the set of keys equals the set of values, no key maps to itself, and following
  the mapping from a key visits every key exactly once and returns to the start, whether
  the traversal starts at the first key, as the code does, or at any key. The checks are
  tested in this order: an error names the first check that fails. In particular the
  map A to B, B to C, C to D, D to A is valid.
\<close>

theorem validateAssignments_three_checks:
  assumes d: "distinct (map fst m)" and ne: "m \<noteq> []" and t: "[] \<notin> set (map fst m)"
  shows "(validateAssignments m = Inr () \<longleftrightarrow>
            keys_equal_values m \<and> no_self_assignment m \<and> single_cycle_from m (fst (hd m))) \<and>
         (validateAssignments m = Inr () \<longleftrightarrow>
            keys_equal_values m \<and> no_self_assignment m \<and>
            list_all (single_cycle_from m) (map fst m)) \<and>
         (\<forall>err. validateAssignments m = Inl err \<longrightarrow>
            (\<not> keys_equal_values m \<longrightarrow> err = Mismatched \<or> (\<exists>r. err = NotASanta r)) \<and>
            (keys_equal_values m \<and> \<not> no_self_assignment m \<longrightarrow> (\<exists>s. err = SelfAssignment s)) \<and>
            (keys_equal_values m \<and> no_self_assignment m \<longrightarrow>
               (\<exists>v. err = MultipleCycles v (length m)) \<or> err = NotClosed))"
proof -
  have first: "validateAssignments m = Inr () \<longleftrightarrow>
      keys_equal_values m \<and> no_self_assignment m \<and> single_cycle_from m (fst (hd m))"
    using d ne t by (rule validateAssignments_iff)
  have h: "fst (hd m) \<in> set (map fst m)" using ne by (cases m) auto
  have second: "validateAssignments m = Inr () \<longleftrightarrow>
      keys_equal_values m \<and> no_self_assignment m \<and> list_all (single_cycle_from m) (map fst m)"
  proof
    assume v: "validateAssignments m = Inr ()"
    have "list_all (single_cycle_from m) (map fst m)"
      unfolding list_all_iff using validateAssignments_any_start [OF d ne v] by blast
    with v first show "keys_equal_values m \<and> no_self_assignment m \<and>
        list_all (single_cycle_from m) (map fst m)" by simp
  next
    assume a: "keys_equal_values m \<and> no_self_assignment m \<and>
        list_all (single_cycle_from m) (map fst m)"
    then have "single_cycle_from m (fst (hd m))" using h unfolding list_all_iff by blast
    with a first show "validateAssignments m = Inr ()" by simp
  qed
  have third: "\<forall>err. validateAssignments m = Inl err \<longrightarrow>
            (\<not> keys_equal_values m \<longrightarrow> err = Mismatched \<or> (\<exists>r. err = NotASanta r)) \<and>
            (keys_equal_values m \<and> \<not> no_self_assignment m \<longrightarrow> (\<exists>s. err = SelfAssignment s)) \<and>
            (keys_equal_values m \<and> no_self_assignment m \<longrightarrow>
               (\<exists>v. err = MultipleCycles v (length m)) \<or> err = NotClosed)"
    using validateAssignments_order [OF d] by blast
  from first second third show ?thesis by (intro conjI)
qed

theorem validateAssignments_three_checks_witness:
  "distinct (map fst [(''A'', ''B''), (''B'', ''C''), (''C'', ''D''), (''D'', ''A'')]) \<and>
   [(''A'', ''B''), (''B'', ''C''), (''C'', ''D''), (''D'', ''A'')] \<noteq> [] \<and>
   [] \<notin> set (map fst [(''A'', ''B''), (''B'', ''C''), (''C'', ''D''), (''D'', ''A'')]) \<and>
   keys_equal_values [(''A'', ''B''), (''B'', ''C''), (''C'', ''D''), (''D'', ''A'')] \<and>
   no_self_assignment [(''A'', ''B''), (''B'', ''C''), (''C'', ''D''), (''D'', ''A'')] \<and>
   single_cycle_from [(''A'', ''B''), (''B'', ''C''), (''C'', ''D''), (''D'', ''A'')] ''A'' \<and>
   validateAssignments [(''A'', ''B''), (''B'', ''C''), (''C'', ''D''), (''D'', ''A'')] = Inr ()"
proof -
  let ?m = "[(''A'', ''B''), (''B'', ''C''), (''C'', ''D''), (''D'', ''A'')]"
  have h1: "distinct (map fst ?m)" by simp
  have h2: "?m \<noteq> []" by simp
  have h3: "[] \<notin> set (map fst ?m)" by simp
  have c1: "keys_equal_values ?m" by (auto simp: keys_equal_values_def)
  have c2: "no_self_assignment ?m" by (simp add: no_self_assignment_def)
  have c3: "single_cycle_from ?m ''A''" by (auto simp: single_cycle_from_def tour_def)
  have c3': "single_cycle_from ?m (fst (hd ?m))" using c3 by simp
  have v: "validateAssignments ?m = Inr ()"
    by (rule iffD2 [OF conjunct1 [OF validateAssignments_three_checks [OF h1 h2 h3]]
          conjI [OF c1 conjI [OF c2 c3']]])
  show ?thesis
    by (rule conjI [OF h1 conjI [OF h2 conjI [OF h3 conjI [OF c1 conjI [OF c2 conjI [OF c3 v]]]]]])
qed

text \<open>
  Claim C10. \<^verbatim>\<open>validateAssignments\<close> applied to the empty map returns
  \<^verbatim>\<open>{ valid: true }\<close>: both sets are empty, no loop body runs, \<open>current\<close> and
  \<open>start\<close> are both \<^verbatim>\<open>undefined\<close>, and the two final tests pass.
\<close>

theorem validateAssignments_empty: "validateAssignments [] = Inr ()"
  by (simp add: validateAssignments_def new_Set_def first_key_def traverse.simps truthy_def)

section \<open>Properties of the shuffle\<close>


lemma reduce_less: "0 < i \<Longrightarrow> reduce w i < i"
  by (simp add: reduce_def)

lemma cycle_of_insert:
  assumes c: "cycle_of m' cyc'" and a: "a \<in> set cyc'" and b: "b \<notin> set cyc'"
    and keys: "set (map fst m) = insert b (set (map fst m'))"
    and ma: "map_of m a = Some b" and mb: "map_of m b = map_of m' a"
    and same: "\<And>x. x \<in> set cyc' \<Longrightarrow> x \<noteq> a \<Longrightarrow> map_of m x = map_of m' x"
  shows "\<exists>cyc. cycle_of m cyc \<and> length cyc = Suc (length cyc')"
proof -
  from a obtain us vs where split: "cyc' = us @ a # vs" by (auto dest: split_list)
  define rot where "rot = vs @ us @ [a]"
  have "rotate (length (us @ [a])) ((us @ [a]) @ vs) = vs @ (us @ [a])" by (rule rotate_append)
  then have rot: "rot = rotate (Suc (length us)) cyc'" by (simp add: rot_def split)
  have cr: "cycle_of m' rot" unfolding rot using c by (rule cycle_of_rotate)
  let ?n = "length rot"
  have n: "0 < ?n" by (simp add: rot_def)
  have len: "?n = length cyc'" by (simp add: rot)
  have dr: "distinct rot" and sr: "set rot = set cyc'" using c by (simp_all add: rot cycle_of_def)
  have last: "rot ! (?n - 1) = a" by (simp add: rot_def nth_append)
  let ?cyc = "rot @ [b]"
  have d: "distinct ?cyc" using dr b sr by simp
  have s: "set ?cyc = set (map fst m)" using keys c sr by (simp add: cycle_of_def)
  have step: "map_of m (?cyc ! q) = Some (?cyc ! (Suc q mod length ?cyc))" if qlt: "q < length ?cyc" for q
  proof -
    have "q < Suc ?n" using qlt by simp
    then consider "Suc q < ?n" | "Suc q = ?n" | "q = ?n" by linarith
    then show ?thesis
    proof cases
      case 1
      then have q: "q < ?n" by simp
      have "rot ! q \<noteq> rot ! (?n - 1)"
        using dr q 1 by (simp add: nth_eq_iff_index_eq)
      then have "rot ! q \<noteq> a" using last by simp
      moreover have "rot ! q \<in> set cyc'" using q sr by (metis nth_mem)
      ultimately have "map_of m (rot ! q) = map_of m' (rot ! q)" by (intro same)
      also have "\<dots> = Some (rot ! (Suc q mod ?n))" using cr q by (rule cycle_of_nth)
      finally show ?thesis using 1 q by (simp add: nth_append)
    next
      case 2
      then have qe: "q = ?n - 1" by simp
      have "?cyc ! q = rot ! q" using 2 by (simp add: nth_append)
      then have "?cyc ! q = a" using last unfolding qe by simp
      then show ?thesis using ma 2 by simp
    next
      case 3
      have "map_of m' (rot ! (?n - 1)) = Some (rot ! (Suc (?n - 1) mod ?n))"
        using cr by (rule cycle_of_nth) (use n in simp)
      then have "map_of m' a = Some (rot ! 0)" using last n by simp
      then show ?thesis using 3 mb n by (simp add: nth_append)
    qed
  qed
  have "\<forall>q \<in> set [0..<length ?cyc]. map_of m (?cyc ! q) = Some (?cyc ! (Suc q mod length ?cyc))"
  proof
    fix q assume "q \<in> set [0..<length ?cyc]"
    then have "q < length ?cyc" unfolding set_upt atLeastLessThan_iff ..
    then show "map_of m (?cyc ! q) = Some (?cyc ! (Suc q mod length ?cyc))" by (rule step)
  qed
  then have la: "list_all (\<lambda>q. map_of m (?cyc ! q) = Some (?cyc ! (Suc q mod length ?cyc))) [0..<length ?cyc]"
    unfolding list_all_iff .
  have ne: "?cyc \<noteq> []" by simp
  have "cycle_of m ?cyc" unfolding cycle_of_def using ne d s la by (intro conjI)
  then show ?thesis using len by (intro exI [of _ ?cyc]) simp
qed


lemma map_of_zip_take:
  assumes "distinct xs" "length ys = length xs" "p < n" "n \<le> length xs"
  shows "map_of (zip (take n xs) (take n ys)) (xs ! p) = Some (ys ! p)"
proof -
  have "map_of (zip (take n xs) (take n ys)) (take n xs ! p) = Some (take n ys ! p)"
    using assms by (intro map_of_zip_nth) simp_all
  then show ?thesis using assms by simp
qed

lemma keys_zip_take:
  "length ys = length xs \<Longrightarrow> set (map fst (zip (take n xs) (take n ys))) = set (take n xs)"
  by (simp del: set_map)

lemma set_take_conv: "n \<le> length xs \<Longrightarrow> set (take n xs) = {xs ! p |p. p < n}"
proof -
  assume n: "n \<le> length xs"
  have "set (take n xs) = (!) xs ` {0..<n}" using nth_image [OF n] by simp
  also have "\<dots> = {xs ! p |p. p < n}" by auto
  finally show ?thesis .
qed

lemma sattolo_loop_inv:
  assumes "distinct xs" "k < length xs"
  shows "length (sattolo_loop k g xs) = length xs \<and>
         (\<forall>p. k < p \<longrightarrow> p < length xs \<longrightarrow> sattolo_loop k g xs ! p = xs ! p) \<and>
         (\<exists>cyc. cycle_of (zip (take (Suc k) xs) (take (Suc k) (sattolo_loop k g xs))) cyc \<and>
                length cyc = Suc k)"
  using assms
proof (induction k arbitrary: g xs)
  case 0
  then obtain x rest where xs: "xs = x # rest" by (cases xs) auto
  have "cycle_of [(x, x)] [x]" by (simp add: cycle_of_def)
  then show ?case using xs by auto
next
  case (Suc k)
  let ?i = "Suc k"
  define j where "j = reduce (g 0) ?i"
  define g' where "g' = (\<lambda>k. g (Suc k))"
  define xs' where "xs' = xs[?i := xs ! j, j := xs ! ?i]"
  define ys where "ys = sattolo_loop k g' xs'"
  have j: "j < ?i" unfolding j_def by (rule reduce_less) simp
  have i: "?i < length xs" using Suc.prems by simp
  have unfold: "sattolo_loop (Suc k) g xs = ys"
    by (simp add: ys_def xs'_def g'_def j_def secureRandomInt_def)
  have lx: "length xs' = length xs" by (simp add: xs'_def)
  have dx: "distinct xs'" unfolding xs'_def using Suc.prems(1) i j by simp
  have nth': "xs' ! p = (if p = j then xs ! ?i else if p = ?i then xs ! j else xs ! p)"
    if "p < length xs" for p
    using that i j by (simp add: xs'_def nth_list_update)
  have k': "k < length xs'" using i lx by simp
  from Suc.IH [OF dx k', of g'] obtain cyc' where
    ly: "length ys = length xs"
    and above: "\<And>p. k < p \<Longrightarrow> p < length xs \<Longrightarrow> ys ! p = xs' ! p"
    and c': "cycle_of (zip (take ?i xs') (take ?i ys)) cyc'"
    and lc': "length cyc' = ?i"
    unfolding ys_def [symmetric] lx by blast
  let ?m' = "zip (take ?i xs') (take ?i ys)"
  let ?m = "zip (take (Suc ?i) xs) (take (Suc ?i) ys)"
  let ?a = "xs ! ?i" and ?b = "xs ! j"
  have dist: "xs ! p \<noteq> xs ! q" if "p < length xs" "q < length xs" "p \<noteq> q" for p q
    using Suc.prems(1) that by (simp add: nth_eq_iff_index_eq)
  have keys': "set cyc' = set (take ?i xs')"
    using c' keys_zip_take [of ys xs' ?i] ly lx by (simp only: cycle_of_def)
  have st': "set (take ?i xs') = {xs' ! p |p. p < ?i}"
    using i lx by (intro set_take_conv) simp
  have st: "set (take (Suc ?i) xs) = {xs ! p |p. p < Suc ?i}"
    using i by (intro set_take_conv) simp
  have a_in: "?a \<in> set cyc'"
  proof -
    have "xs' ! j = ?a" using nth' [of j] i j by simp
    then show ?thesis unfolding keys' st' using j by (intro CollectI exI [of _ j]) simp
  qed
  have b_out: "?b \<notin> set cyc'"
  proof
    assume "?b \<in> set cyc'"
    then obtain p where p: "p < ?i" "xs' ! p = ?b" unfolding keys' st' by auto
    show False
    proof (cases "p = j")
      case True
      then have "?a = ?b" using p nth' [of j] i j by simp
      then show False using dist [of ?i j] i j by simp
    next
      case False
      then have "xs ! p = ?b" using p nth' [of p] i by simp
      then show False using dist [of p j] False p i j by simp
    qed
  qed
  have keys: "set (map fst ?m) = insert ?b (set (map fst ?m'))"
  proof -
    have "{xs ! p |p. p < Suc ?i} = insert ?b {xs' ! p |p. p < ?i}"
    proof (intro set_eqI iffI)
      fix x assume "x \<in> {xs ! p |p. p < Suc ?i}"
      then obtain p where p: "p < Suc ?i" "x = xs ! p" by auto
      show "x \<in> insert ?b {xs' ! p |p. p < ?i}"
      proof (cases "p = j")
        case True then show ?thesis using p by simp
      next
        case nj: False
        show ?thesis
        proof (cases "p = ?i")
          case True
          then have "x = xs' ! j" using p nth' [of j] i j by simp
          then show ?thesis using j by (intro insertI2 CollectI exI [of _ j]) simp
        next
          case False
          then have "p < ?i" using p by simp
          moreover have "x = xs' ! p" using p nj False nth' [of p] i by simp
          ultimately show ?thesis by (intro insertI2 CollectI exI [of _ p]) simp
        qed
      qed
    next
      fix x assume "x \<in> insert ?b {xs' ! p |p. p < ?i}"
      then consider "x = ?b" | p where "p < ?i" "x = xs' ! p" by auto
      then show "x \<in> {xs ! p |p. p < Suc ?i}"
      proof cases
        case 1
        then show ?thesis using j by (intro CollectI exI [of _ j]) simp
      next
        case 2
        show ?thesis
        proof (cases "p = j")
          case True
          then have "x = xs ! ?i" using 2 nth' [of j] i j by simp
          then show ?thesis by (intro CollectI exI [of _ ?i]) simp
        next
          case False
          then have "x = xs ! p" using 2 nth' [of p] i by simp
          then show ?thesis using 2 by (intro CollectI exI [of _ p]) simp
        qed
      qed
    qed
    then show ?thesis
      unfolding keys_zip_take [OF ly] keys_zip_take [of ys xs' ?i, unfolded lx, OF ly] st st' .
  qed
  have m_nth: "map_of ?m (xs ! p) = Some (ys ! p)" if "p < Suc ?i" for p
    using Suc.prems(1) ly that i by (intro map_of_zip_take) simp_all
  have m'_nth: "map_of ?m' (xs' ! p) = Some (ys ! p)" if "p < ?i" for p
    using dx ly lx that i by (intro map_of_zip_take) simp_all
  have ma: "map_of ?m ?a = Some ?b"
  proof -
    have "ys ! ?i = xs' ! ?i" using i by (intro above) simp_all
    also have "\<dots> = ?b" using nth' [of ?i] i j by simp
    finally show ?thesis using m_nth [of ?i] by simp
  qed
  have mb: "map_of ?m ?b = map_of ?m' ?a"
  proof -
    have "xs' ! j = ?a" using nth' [of j] i j by simp
    then have "map_of ?m' ?a = Some (ys ! j)" using m'_nth [OF j] by simp
    moreover have "map_of ?m ?b = Some (ys ! j)" using m_nth [of j] j by simp
    ultimately show ?thesis by simp
  qed
  have same: "map_of ?m x = map_of ?m' x" if "x \<in> set cyc'" "x \<noteq> ?a" for x
  proof -
    from that(1) obtain p where p: "p < ?i" "x = xs' ! p" unfolding keys' st' by auto
    have "p \<noteq> j" using that(2) p nth' [of j] i j by auto
    then have "x = xs ! p" using p nth' [of p] i by simp
    then have "map_of ?m x = Some (ys ! p)" using m_nth [of p] p by simp
    moreover have "map_of ?m' x = Some (ys ! p)" using m'_nth [OF p(1)] p by simp
    ultimately show ?thesis by simp
  qed
  from cycle_of_insert [OF c' a_in b_out keys ma mb same] lc'
  have "\<exists>cyc. cycle_of ?m cyc \<and> length cyc = Suc ?i" by simp
  moreover have "ys ! p = xs ! p" if "?i < p" "p < length xs" for p
  proof -
    have "ys ! p = xs' ! p" using that by (intro above) simp_all
    then show ?thesis using nth' [OF that(2)] that j by simp
  qed
  ultimately show ?case unfolding unfold using ly by blast
qed


lemma update_fresh: "k \<notin> fst ` set al \<Longrightarrow> AList.update k v al = al @ [(k, v)]"
  by (induction al) auto

lemma set_all_zip:
  "distinct ps \<Longrightarrow> length ss = length ps \<Longrightarrow> set ps \<inter> fst ` set m0 = {} \<Longrightarrow>
   set_all ps ss m0 = m0 @ zip ps ss"
proof (induction ps ss m0 rule: set_all.induct)
  case (1 p ps s ss m)
  have "set_all ps ss (AList.update p s m) = AList.update p s m @ zip ps ss"
    using "1.prems" by (intro "1.IH") (auto simp: update_fresh)
  then show ?case using "1.prems" by (simp add: update_fresh)
qed auto

lemma chain_is_zip:
  assumes "distinct ids" "2 \<le> length ids"
  shows "createSecretSantaChain g ids = Inr (zip ids (sattoloShuffle g ids))"
    and "length (sattoloShuffle g ids) = length ids"
    and "\<exists>cyc. cycle_of (zip ids (sattoloShuffle g ids)) cyc \<and> length cyc = length ids"
proof -
  let ?n = "length ids"
  have sh: "sattoloShuffle g ids = sattolo_loop (?n - 1) g ids"
    using assms by (simp add: sattoloShuffle_def sattoloShuffleInPlace_def)
  have k: "?n - 1 < ?n" using assms by simp
  from sattolo_loop_inv [OF assms(1) k, of g] obtain cyc where
    l: "length (sattolo_loop (?n - 1) g ids) = ?n"
    and c: "cycle_of (zip (take (Suc (?n - 1)) ids) (take (Suc (?n - 1)) (sattolo_loop (?n - 1) g ids))) cyc"
    and lc: "length cyc = Suc (?n - 1)" by blast
  have S: "Suc (?n - 1) = ?n" using assms by simp
  show len: "length (sattoloShuffle g ids) = ?n" using l sh by simp
  show "\<exists>cyc. cycle_of (zip ids (sattoloShuffle g ids)) cyc \<and> length cyc = ?n"
    using c lc l unfolding S sh by (intro exI [of _ cyc]) simp
  have "set_all ids (sattoloShuffle g ids) [] = [] @ zip ids (sattoloShuffle g ids)"
    using assms(1) len by (intro set_all_zip) simp_all
  then show "createSecretSantaChain g ids = Inr (zip ids (sattoloShuffle g ids))"
    using assms by (simp add: createSecretSantaChain_def)
qed

text \<open>
  Claim C1. For every list of at least two distinct participant ids and every random
  source (every draw is below its loop index by \<open>reduce_less\<close>), the map built by
  \<^verbatim>\<open>createSecretSantaChain\<close> pairs the original order with the shuffled order, is a
  bijection on the ids (its keys are the ids, its values are distinct and are the ids
  again), has no entry \<open>x \<rightarrow> x\<close>, and is one cycle: the traversal from any id visits
  all \<open>n\<close> ids exactly once and then returns to the start.
\<close>

theorem createSecretSantaChain_single_cycle:
  assumes "distinct ids" "2 \<le> length ids"
  shows "\<exists>m. createSecretSantaChain g ids = Inr m \<and>
             m = zip ids (sattoloShuffle g ids) \<and>
             map fst m = ids \<and> distinct (map snd m) \<and> set (map snd m) = set ids \<and>
             no_self_assignment m \<and>
             (\<forall>x \<in> set ids. single_cycle_from m x)"
proof -
  let ?m = "zip ids (sattoloShuffle g ids)"
  from chain_is_zip [OF assms, of g] obtain cyc where
    cr: "createSecretSantaChain g ids = Inr ?m"
    and len: "length (sattoloShuffle g ids) = length ids"
    and c: "cycle_of ?m cyc" and lc: "length cyc = length ids" by blast
  have keys: "map fst ?m = ids" using len by simp
  have vals: "map snd ?m = sattoloShuffle g ids" using len by simp
  have d: "distinct (map fst ?m)" using keys assms by simp
  have ke: "keys_equal_values ?m" using c d by (rule cycle_of_keys_equal_values)
  then have sv: "set (map snd ?m) = set ids" unfolding keys_equal_values_def keys by simp
  have "card (set (map snd ?m)) = length (map snd ?m)"
    unfolding sv using distinct_card [OF assms(1)] len by simp
  then have dv: "distinct (map snd ?m)" by (rule card_distinct)
  have ns: "no_self_assignment ?m"
    using c d by (rule cycle_of_no_self_assignment) (use lc assms in simp)
  have sc: "set cyc = set ids" using c keys by (simp only: cycle_of_def)
  have "single_cycle_from ?m x" if "x \<in> set ids" for x
    using c d by (rule cycle_of_single_cycle_from) (use that sc in simp)
  with cr keys dv sv ns show ?thesis by blast
qed

lemma chain_validates:
  assumes "distinct ids" "2 \<le> length ids" "[] \<notin> set ids"
  shows "\<exists>m. createSecretSantaChain g ids = Inr m \<and> validateAssignments m = Inr ()"
proof -
  let ?m = "zip ids (sattoloShuffle g ids)"
  from chain_is_zip [OF assms(1,2), of g] obtain cyc where
    cr: "createSecretSantaChain g ids = Inr ?m"
    and len: "length (sattoloShuffle g ids) = length ids"
    and c: "cycle_of ?m cyc" and lc: "length cyc = length ids" by blast
  have keys: "map fst ?m = ids" using len by simp
  have d: "distinct (map fst ?m)" using keys assms by simp
  have ne: "?m \<noteq> []" using assms(2) len by (cases ids; cases "sattoloShuffle g ids") auto
  have "fst (hd ?m) = hd (map fst ?m)" using ne by (simp add: hd_map)
  then have h: "fst (hd ?m) = hd ids" using keys by simp
  have "hd ids \<in> set cyc" using c keys assms(2) by (cases ids) (auto simp: cycle_of_def simp del: set_map)
  then obtain p where p: "p < length cyc" "cyc ! p = hd ids" by (auto simp: in_set_conv_nth)
  have cp: "cycle_of ?m (rotate p cyc)" using c by (rule cycle_of_rotate)
  have "cyc \<noteq> []" using p by auto
  then have "hd (rotate p cyc) = cyc ! (p mod length cyc)" by (rule hd_rotate_conv_nth)
  then have "hd (rotate p cyc) = cyc ! p" using p by simp
  then have hp: "hd (rotate p cyc) = fst (hd ?m)" using p h by simp
  have "validateAssignments ?m = Inr ()"
    using d ne cp hp by (rule cycle_of_validate) (use lc assms keys in simp_all)
  with cr show ?thesis by blast
qed

theorem createSecretSantaChain_single_cycle_witness:
  "distinct [''a'', ''b'', ''c''] \<and> 2 \<le> length [''a'', ''b'', ''c''] \<and>
   (\<exists>m. createSecretSantaChain (\<lambda>k. 5) [''a'', ''b'', ''c''] = Inr m \<and>
        m = zip [''a'', ''b'', ''c''] (sattoloShuffle (\<lambda>k. 5) [''a'', ''b'', ''c'']) \<and>
        map fst m = [''a'', ''b'', ''c''] \<and> distinct (map snd m) \<and>
        set (map snd m) = set [''a'', ''b'', ''c''] \<and>
        no_self_assignment m \<and>
        (\<forall>x \<in> set [''a'', ''b'', ''c'']. single_cycle_from m x))"
proof -
  have h1: "distinct [''a'', ''b'', ''c'']" by simp
  have h2: "2 \<le> length [''a'', ''b'', ''c'']" by simp
  show ?thesis
    by (rule conjI [OF h1 conjI [OF h2 createSecretSantaChain_single_cycle [OF h1 h2]]])
qed

text \<open>
  The draws of the loop: each is below the loop index, and every index below \<open>i\<close> is
  the draw of some source value (array indices are below \<open>2^32\<close>).
\<close>

lemma secureRandomInt_less: "0 < i \<Longrightarrow> fst (secureRandomInt i g) < i"
  by (simp add: secureRandomInt_def reduce_less)

lemma reduce_onto:
  assumes "j < i" "i \<le> 4294967296"
  shows "reduce (of_nat j) i = j"
proof -
  have "unat (of_nat j :: 32 word) = j" using assms by (simp add: unat_of_nat)
  then show ?thesis using assms by (simp add: reduce_def)
qed

section \<open>The distribution of the draws\<close>


lemma card_word_mod:
  "card {w :: 32 word. reduce w m = r} = card {k. k < 4294967296 \<and> k mod m = r}"
proof (rule bij_betw_same_card [of unat])
  show "bij_betw unat {w :: 32 word. reduce w m = r} {k. k < 4294967296 \<and> k mod m = r}"
    unfolding bij_betw_def
  proof
    show "inj_on unat {w :: 32 word. reduce w m = r}"
      by (rule inj_onI) (rule unsigned_word_eqI)
    show "unat ` {w :: 32 word. reduce w m = r} = {k. k < 4294967296 \<and> k mod m = r}"
    proof (intro set_eqI iffI)
      fix k assume "k \<in> unat ` {w :: 32 word. reduce w m = r}"
      then obtain w :: "32 word" where w: "k = unat w" "reduce w m = r" by auto
      have "unat w < 2 ^ LENGTH(32)" by (rule unsigned_less)
      then show "k \<in> {k. k < 4294967296 \<and> k mod m = r}"
        using w by (simp add: reduce_def)
    next
      fix k assume "k \<in> {k. k < 4294967296 \<and> k mod m = r}"
      then have k: "k < 4294967296" "k mod m = r" by simp_all
      have u: "unat (of_nat k :: 32 word) = k"
        using k(1) by (simp add: unat_of_nat)
      then have "reduce (of_nat k :: 32 word) m = r" using k by (simp add: reduce_def)
      then show "k \<in> unat ` {w :: 32 word. reduce w m = r}"
        using u by (intro image_eqI [of _ _ "of_nat k :: 32 word"]) simp_all
    qed
  qed
qed

lemma card_residue:
  assumes "r < 3" "\<And>q. 3 * q + r < (4294967296::nat) \<longleftrightarrow> q < c"
  shows "card {k. k < 4294967296 \<and> k mod 3 = r} = c"
proof -
  have "{k. k < 4294967296 \<and> k mod 3 = r} = (\<lambda>q. 3 * q + r) ` {..<c}"
  proof (intro set_eqI iffI)
    fix k assume "k \<in> {k. k < 4294967296 \<and> k mod 3 = r}"
    then have k: "k < 4294967296" "k mod 3 = r" by simp_all
    have e: "k = 3 * (k div 3) + r" using k(2) by presburger
    then have "k div 3 < c" using assms(2) [of "k div 3"] k(1) by simp
    then show "k \<in> (\<lambda>q. 3 * q + r) ` {..<c}" using e by blast
  next
    fix k assume "k \<in> (\<lambda>q. 3 * q + r) ` {..<c}"
    then obtain q where q: "q < c" "k = 3 * q + r" by auto
    then show "k \<in> {k. k < 4294967296 \<and> k mod 3 = r}"
      using assms by simp
  qed
  moreover have "inj_on (\<lambda>q. 3 * q + r) {..<c}" by (rule inj_onI) simp
  ultimately show ?thesis by (simp add: card_image)
qed

text \<open>
  Claim C2. In every iteration the draw \<open>j = secureRandomInt(i)\<close> is below \<open>i\<close>
  (\<open>reduce_less\<close>), and for a 32-bit source uniform over \<open>[0, 2^32)\<close> the draw is
  uniform over \<open>[0, i - 1]\<close>. The second part fails at \<open>i = 3\<close>, the first iteration
  for four participants: of the \<open>2^32\<close> equally likely source values, 1431655766 give
  \<open>j = 0\<close> and 1431655765 each give \<open>j = 1\<close> and \<open>j = 2\<close>, because 3 does not divide
  \<open>2^32\<close>.
\<close>

theorem reduce_3_biased:
  "card {w :: 32 word. reduce w 3 = 0} = 1431655766 \<and>
   card {w :: 32 word. reduce w 3 = 1} = 1431655765 \<and>
   card {w :: 32 word. reduce w 3 = 2} = 1431655765"
proof (intro conjI)
  show "card {w :: 32 word. reduce w 3 = 0} = 1431655766"
    unfolding card_word_mod by (rule card_residue) (simp, arith)
  show "card {w :: 32 word. reduce w 3 = 1} = 1431655765"
    unfolding card_word_mod by (rule card_residue) (simp, arith)
  show "card {w :: 32 word. reduce w 3 = 2} = 1431655765"
    unfolding card_word_mod by (rule card_residue) (simp, arith)
qed

section \<open>Properties of the lifecycle\<close>


lemma find_map_same:
  "(\<And>x. x \<in> set xs \<Longrightarrow> P (h x) = P x) \<Longrightarrow> find P (map h xs) = map_option h (find P xs)"
  by (induction xs) auto

lemma map_assign_same:
  "map p_id (map (\<lambda>p. if P p then p\<lparr>assigned_recipient_id := a, p_updated_at := n\<rparr> else p) ps)
     = map p_id ps \<and>
   map exchange_id (map (\<lambda>p. if P p then p\<lparr>assigned_recipient_id := a, p_updated_at := n\<rparr> else p) ps)
     = map exchange_id ps"
  by (induction ps) auto

lemma assignRecipient_frame:
  assumes "assignRecipient db s r now = Inr db'"
  shows "exchanges db' = exchanges db \<and> questionnaires db' = questionnaires db \<and>
         organizers db' = organizers db \<and>
         map p_id (participants db') = map p_id (participants db) \<and>
         map exchange_id (participants db') = map exchange_id (participants db)"
proof -
  from assms have "db' = db\<lparr>participants := map (\<lambda>p. if p_id p = s
                        then p\<lparr>assigned_recipient_id := Some r, p_updated_at := now\<rparr>
                        else p) (participants db)\<rparr>"
    by (simp add: assignRecipient_def split: if_splits)
  then show ?thesis using map_assign_same [where P = "\<lambda>p. p_id p = s" and a = "Some r" and n = now
        and ps = "participants db"]
    by simp
qed

text \<open>
  Whatever the loop over the pairs returns, it has written to the column
  \<^verbatim>\<open>assigned_recipient_id\<close> (and \<^verbatim>\<open>updated_at\<close>) of participants only.
\<close>

lemma save_assignments_frame:
  assumes "save_assignments asg now db = (r, db')"
  shows "exchanges db' = exchanges db \<and> questionnaires db' = questionnaires db \<and>
         organizers db' = organizers db \<and>
         map p_id (participants db') = map p_id (participants db) \<and>
         map exchange_id (participants db') = map exchange_id (participants db)"
  using assms
proof (induction asg arbitrary: db)
  case Nil
  then show ?case by simp
next
  case (Cons a asg)
  obtain s rc where a: "a = (s, rc)" by (cases a)
  show ?case
  proof (cases "assignRecipient db s rc now")
    case (Inl err)
    with Cons.prems a show ?thesis by simp
  next
    case (Inr db1)
    with Cons.prems a have "save_assignments asg now db1 = (r, db')" by simp
    from Cons.IH [OF this] assignRecipient_frame [OF Inr] show ?thesis by simp
  qed
qed



lemma findExchangeByIdForOrganizer_Some:
  "findExchangeByIdForOrganizer db x user = Some e \<Longrightarrow> e_id e = x \<and> organizer_id e = user"
  unfolding findExchangeByIdForOrganizer_def by (auto dest: find_Some_iff [THEN iffD1])

lemma findExchangeById_of_organizer:
  "findExchangeByIdForOrganizer db x user = Some e \<Longrightarrow> \<exists>e0. findExchangeById db x = Some e0"
  unfolding findExchangeByIdForOrganizer_def findExchangeById_def
  by (cases "find (\<lambda>e. e_id e = x) (exchanges db)") (auto simp: find_None_iff find_Some_iff)

lemma updateExchange_exchanges:
  "updateExchange db x input now = Inr db' \<Longrightarrow>
   \<exists>existing. findExchangeById db x = Some existing \<and>
     db' = db\<lparr>exchanges := map (\<lambda>e. if e_id e = x
                 then e\<lparr>status := (case in_status input of Some s \<Rightarrow> s | None \<Rightarrow> status existing),
                        shuffled_at := (case in_shuffled_at input of Some t \<Rightarrow> t
                                        | None \<Rightarrow> shuffled_at existing),
                        secrets_sent_at := (case in_secrets_sent_at input of Some t \<Rightarrow> t
                                            | None \<Rightarrow> secrets_sent_at existing),
                        e_updated_at := now\<rparr>
                 else e) (exchanges db)\<rparr>"
  by (auto simp: updateExchange_def split: option.splits)

lemma updateExchange_for_organizer:
  assumes "updateExchange db x input now = Inr db'"
    and "findExchangeByIdForOrganizer db x user = Some e"
  shows "\<exists>existing. findExchangeById db x = Some existing \<and>
     findExchangeByIdForOrganizer db' x user =
       Some (e\<lparr>status := (case in_status input of Some s \<Rightarrow> s | None \<Rightarrow> status existing),
               shuffled_at := (case in_shuffled_at input of Some t \<Rightarrow> t | None \<Rightarrow> shuffled_at existing),
               secrets_sent_at := (case in_secrets_sent_at input of Some t \<Rightarrow> t
                                   | None \<Rightarrow> secrets_sent_at existing),
               e_updated_at := now\<rparr>)"
proof -
  from updateExchange_exchanges [OF assms(1)] obtain existing where
    ex: "findExchangeById db x = Some existing" and
    db': "db' = db\<lparr>exchanges := map (\<lambda>e. if e_id e = x
                 then e\<lparr>status := (case in_status input of Some s \<Rightarrow> s | None \<Rightarrow> status existing),
                        shuffled_at := (case in_shuffled_at input of Some t \<Rightarrow> t
                                        | None \<Rightarrow> shuffled_at existing),
                        secrets_sent_at := (case in_secrets_sent_at input of Some t \<Rightarrow> t
                                            | None \<Rightarrow> secrets_sent_at existing),
                        e_updated_at := now\<rparr>
                 else e) (exchanges db)\<rparr>" by blast
  have ide: "e_id e = x" using findExchangeByIdForOrganizer_Some [OF assms(2)] by simp
  let ?f = "\<lambda>e. if e_id e = x
                 then e\<lparr>status := (case in_status input of Some s \<Rightarrow> s | None \<Rightarrow> status existing),
                        shuffled_at := (case in_shuffled_at input of Some t \<Rightarrow> t
                                        | None \<Rightarrow> shuffled_at existing),
                        secrets_sent_at := (case in_secrets_sent_at input of Some t \<Rightarrow> t
                                            | None \<Rightarrow> secrets_sent_at existing),
                        e_updated_at := now\<rparr>
                 else e"
  have "find (\<lambda>e. e_id e = x \<and> organizer_id e = user) (map ?f (exchanges db))
          = map_option ?f (find (\<lambda>e. e_id e = x \<and> organizer_id e = user) (exchanges db))"
    by (rule find_map_same) simp
  also have "\<dots> = Some (?f e)"
    using assms(2) by (simp only: findExchangeByIdForOrganizer_def option.map)
  finally have "findExchangeByIdForOrganizer db' x user = Some (?f e)"
    unfolding db' findExchangeByIdForOrganizer_def by simp
  then show ?thesis using ex ide by simp
qed

text \<open>
  Claim C4. If the shuffle action is called twice in sequence on the same exchange and
  the first call succeeds, the second call (whatever its random source and time) returns
  the error "Exchange has already been shuffled or is not ready." and leaves the whole
  store as the first call left it: no assignment edge, status or timestamp is written.
\<close>

theorem second_shuffle_refused:
  assumes "useShuffleAction g now user x db = (ShuffleSuccess n, db')"
  shows "useShuffleAction g' now' user x db' =
           (ShuffleError ''Exchange has already been shuffled or is not ready.'', db')"
proof -
  from assms obtain asg where
    prep: "shuffle_prepare g user x db = Inr asg" and
    com: "shuffle_commit asg now x db = (ShuffleSuccess n, db')"
    by (auto simp: useShuffleAction_def split: sum.splits)
  from prep obtain e where e: "findExchangeByIdForOrganizer db x user = Some e"
    by (auto simp: shuffle_prepare_def split: option.splits)
  from com obtain db1 where sv: "save_assignments asg now db = (None, db1)" and
    up: "updateExchange db1 x
      \<lparr>in_status = Some shuffled, in_shuffled_at = Some (Some now), in_secrets_sent_at = None\<rparr> now = Inr db'"
    by (auto simp: shuffle_commit_def split: prod.splits option.splits sum.splits)
  have e1: "findExchangeByIdForOrganizer db1 x user = Some e"
    using e save_assignments_frame [OF sv] by (simp add: findExchangeByIdForOrganizer_def)
  from updateExchange_for_organizer [OF up e1] obtain e' where
    "findExchangeByIdForOrganizer db' x user = Some e'" "status e' = shuffled"
    by auto
  then show ?thesis
    by (simp add: useShuffleAction_def shuffle_prepare_def)
qed

theorem second_shuffle_refused_witness:
  "useShuffleAction (\<lambda>k. 0) 5 ''u'' ''x'' (example_store ready)
     = (ShuffleSuccess 3, example_shuffled None 5) \<and>
   useShuffleAction (\<lambda>k. 1) 6 ''u'' ''x'' (example_shuffled None 5)
     = (ShuffleError ''Exchange has already been shuffled or is not ready.'', example_shuffled None 5)"
proof -
  have h: "useShuffleAction (\<lambda>k. 0) 5 ''u'' ''x'' (example_store ready)
     = (ShuffleSuccess 3, example_shuffled None 5)"
    by code_simp
  show ?thesis by (rule conjI [OF h second_shuffle_refused [OF h]])
qed


lemma unique_row:
  assumes u: "exchange_ids_unique db"
    and a: "findExchangeByIdForOrganizer db x user = Some e"
  shows "findExchangeById db x = Some e"
proof -
  from findExchangeById_of_organizer [OF a] obtain e0 where e0: "findExchangeById db x = Some e0"
    by blast
  have "e0 \<in> set (exchanges db)" "e_id e0 = x"
    using e0 unfolding findExchangeById_def by (auto simp: find_Some_iff)
  moreover have "e \<in> set (exchanges db)" "e_id e = x"
    using a unfolding findExchangeByIdForOrganizer_def by (auto simp: find_Some_iff)
  moreover have "inj_on e_id (set (exchanges db))"
    using u by (simp add: exchange_ids_unique_def distinct_map)
  ultimately have "e0 = e" by (auto dest: inj_onD)
  with e0 show ?thesis by simp
qed

lemma updateExchange_succeeds:
  "findExchangeById db x = Some existing \<Longrightarrow> \<exists>db'. updateExchange db x input now = Inr db'"
  by (simp add: updateExchange_def)






lemma deliver_Inr_called: "deliver mail db ps santa = Inr u \<Longrightarrow> mail_called db ps santa"
  by (auto simp: deliver_def mail_called_def split: if_splits option.splits mail_result.splits)

lemma send_loop_result:
  "send_loop mail db ps qs (c, errs, called) =
     (c + length (filter (\<lambda>santa. deliver mail db ps santa = Inr ()) qs),
      errs @ concat (map (\<lambda>santa. case deliver mail db ps santa of Inl line \<Rightarrow> [line] | Inr ok \<Rightarrow> []) qs),
      called @ map p_id (filter (mail_called db ps) qs))"
proof (induction qs arbitrary: c errs called)
  case Nil
  then show ?case by simp
next
  case (Cons santa rest)
  show ?case
  proof (cases "deliver mail db ps santa")
    case (Inl line)
    then show ?thesis using Cons.IH by simp
  next
    case (Inr u)
    then show ?thesis using Cons.IH deliver_Inr_called [OF Inr] by simp
  qed
qed

text \<open>
  The handler's loop body against the outcome of the deliveries. \<^verbatim>\<open>new Map\<close> keeps
  the last entry of a key, so the lookup of an id in \<^verbatim>\<open>participantMap\<close> finds a
  participant with that id exactly when there is one.
\<close>

lemma map_of_fold_update:
  "map_of (fold (\<lambda>(k, v) m. AList.update k v m) es m0) = map_of m0 ++ map_of (rev es)"
proof (induction es arbitrary: m0)
  case Nil
  then show ?case by simp
next
  case (Cons a es)
  obtain k v where a: "a = (k, v)" by (cases a)
  have "map_of (fold (\<lambda>(k, v) m. AList.update k v m) (a # es) m0)
      = map_of (AList.update k v m0) ++ map_of (rev es)"
    using Cons.IH [of "AList.update k v m0"] a by simp
  also have "\<dots> = (map_of m0 ++ [k \<mapsto> v]) ++ map_of (rev es)"
    by (simp add: update_conv')
  also have "\<dots> = map_of m0 ++ ([k \<mapsto> v] ++ map_of (rev es))"
    by simp
  also have "[k \<mapsto> v] ++ map_of (rev es) = map_of (rev (a # es))"
    using a by (simp add: map_of_append)
  finally show ?case .
qed

lemma map_of_new_Map: "map_of (new_Map es) = map_of (rev es)"
  by (simp add: new_Map_def map_of_fold_update)

lemma participant_lookup_Some:
  assumes "map_of (new_Map (map (\<lambda>p. (p_id p, p)) ps)) r = Some recipient"
  shows "p_id recipient = r" and "r \<in> set (map p_id ps)"
proof -
  from assms have "(r, recipient) \<in> set (rev (map (\<lambda>p. (p_id p, p)) ps))"
    unfolding map_of_new_Map by (rule map_of_SomeD)
  then show "p_id recipient = r" and "r \<in> set (map p_id ps)" by auto
qed

lemma participant_lookup_None:
  "map_of (new_Map (map (\<lambda>p. (p_id p, p)) ps)) r = None \<longleftrightarrow> r \<notin> set (map p_id ps)"
  unfolding map_of_new_Map by (simp add: map_of_eq_None_iff image_image)

lemma questionnaire_lookup_None:
  "findQuestionnaireByParticipant db r = None \<longleftrightarrow> r \<notin> set (map participant_id (questionnaires db))"
  unfolding findQuestionnaireByParticipant_def find_None_iff by auto

text \<open>
  When no participant has the empty id, the loop body counts a participant as sent
  exactly when the delivery to it succeeds, and every line it pushes names the
  participant.
\<close>

lemma deliver_refines:
  assumes ne: "[] \<notin> set (map p_id ps)"
  shows "deliver mail db ps santa = Inr () \<longleftrightarrow> delivery_succeeds mail db ps santa"
proof (cases "assigned_recipient_id santa")
  case None
  then show ?thesis by (simp add: deliver_def delivery_succeeds_def truthy_def)
next
  case (Some r)
  show ?thesis
  proof (cases "map_of (new_Map (map (\<lambda>p. (p_id p, p)) ps)) r")
    case None
    then have "r \<notin> set (map p_id ps)" using participant_lookup_None [of ps r] by blast
    with Some None show ?thesis by (simp add: deliver_def delivery_succeeds_def)
  next
    case (Some recipient)
    note look = participant_lookup_Some [OF Some]
    from look(2) ne have r: "r \<noteq> []" by metis
    show ?thesis
    proof (cases "findQuestionnaireByParticipant db r")
      case None
      then have "r \<notin> set (map participant_id (questionnaires db))"
        using questionnaire_lookup_None [of db r] by blast
      with None Some look r \<open>assigned_recipient_id santa = Some r\<close> show ?thesis
        by (simp add: deliver_def delivery_succeeds_def truthy_def)
    next
      case (Some q)
      then have "r \<in> set (map participant_id (questionnaires db))"
        using questionnaire_lookup_None [of db r] by simp
      with Some \<open>map_of (new_Map (map (\<lambda>p. (p_id p, p)) ps)) r = Some recipient\<close>
        look r \<open>assigned_recipient_id santa = Some r\<close> show ?thesis
        by (cases "mail santa") (simp_all add: deliver_def delivery_succeeds_def truthy_def)
    qed
  qed
qed

lemma deliver_Inl_names: "deliver mail db ps santa = Inl line \<Longrightarrow> names_participant santa line"
  by (auto simp: deliver_def names_participant_def split: if_splits option.splits mail_result.splits)

lemma send_loop_outcome:
  assumes ne: "[] \<notin> set (map p_id ps)"
  shows "\<exists>errors called.
           send_loop mail db ps qs (0, [], []) =
             (length (filter (delivery_succeeds mail db ps) qs), errors, called) \<and>
           list_all2 names_participant
             (filter (\<lambda>santa. \<not> delivery_succeeds mail db ps santa) qs) errors"
proof -
  let ?errors = "concat (map (\<lambda>santa. case deliver mail db ps santa of
                    Inl line \<Rightarrow> [line] | Inr ok \<Rightarrow> []) qs)"
  have same: "filter (\<lambda>santa. deliver mail db ps santa = Inr ()) qs
      = filter (delivery_succeeds mail db ps) qs"
    by (rule filter_cong [OF refl]) (simp only: deliver_refines [OF ne])
  have "send_loop mail db ps qs (0, [], []) =
      (length (filter (delivery_succeeds mail db ps) qs), ?errors,
       map p_id (filter (mail_called db ps) qs))"
    unfolding send_loop_result same by simp
  moreover have "list_all2 names_participant
      (filter (\<lambda>santa. \<not> delivery_succeeds mail db ps santa) qs) ?errors"
  proof (induction qs)
    case Nil
    then show ?case by simp
  next
    case (Cons q qs)
    show ?case
    proof (cases "deliver mail db ps q")
      case (Inl line)
      then have "\<not> delivery_succeeds mail db ps q"
        using deliver_refines [OF ne, of mail db q] by simp
      with Inl Cons deliver_Inl_names [OF Inl] show ?thesis by simp
    next
      case (Inr u)
      then have "delivery_succeeds mail db ps q"
        using deliver_refines [OF ne, of mail db q] by simp
      with Inr Cons show ?thesis by simp
    qed
  qed
  ultimately show ?thesis by blast
qed

lemma length_failed_deliveries:
  "length (failed_deliveries mail db ps) = length ps - sent_count mail db ps"
proof -
  have "length (filter (\<lambda>santa. \<not> P santa) qs) = length qs - length (filter P qs)"
    for P :: "Participant \<Rightarrow> bool" and qs
    using sum_length_filter_compl [of P qs] by simp
  then show ?thesis by (simp add: failed_deliveries_def sent_count_def)
qed

text \<open>
  The outcomes of the send action on any store with unique exchange ids and non-empty
  participant ids. Without a participant the loop sends nothing and the count 0 equals
  the number of participants, so the no-success case is stated for an exchange that
  has one.
\<close>

lemma send_secrets_cases:
  assumes u: "exchange_ids_unique db"
    and ne: "participant_ids_nonempty db"
    and e: "findExchangeByIdForOrganizer db x user = Some e"
  shows "(status e \<noteq> shuffled \<or> secrets_sent_at e \<noteq> None \<longrightarrow>
            (\<exists>msg. useSendSecretsAction mail now user x db = (SendError msg, db, []))) \<and>
         (status e = shuffled \<and> secrets_sent_at e = None \<longrightarrow>
            (let ps = listParticipantsByExchange db x; n = sent_count mail db ps in
             (n = length ps \<longrightarrow>
                (\<exists>db' called. useSendSecretsAction mail now user x db = (SendAll n, db', called) \<and>
                   findExchangeByIdForOrganizer db' x user =
                     Some (e\<lparr>status := complete, secrets_sent_at := Some now, e_updated_at := now\<rparr>) \<and>
                   participants db' = participants db)) \<and>
             (0 < n \<and> n < length ps \<longrightarrow>
                (\<exists>db' called errors. useSendSecretsAction mail now user x db =
                     (SendPartial n errors, db', called) \<and>
                   list_all2 names_participant (failed_deliveries mail db ps) errors \<and>
                   length errors = length ps - n \<and>
                   findExchangeByIdForOrganizer db' x user =
                     Some (e\<lparr>secrets_sent_at := Some now, e_updated_at := now\<rparr>) \<and>
                   participants db' = participants db)) \<and>
             (n = 0 \<and> ps \<noteq> [] \<longrightarrow>
                (\<exists>called errors. useSendSecretsAction mail now user x db =
                     (SendNone errors, db, called) \<and>
                   list_all2 names_participant (failed_deliveries mail db ps) errors \<and>
                   length errors = length ps))))"
proof (intro conjI impI)
  assume "status e \<noteq> shuffled \<or> secrets_sent_at e \<noteq> None"
  then show "\<exists>msg. useSendSecretsAction mail now user x db = (SendError msg, db, [])"
    using e by (auto simp: useSendSecretsAction_def)
next
  assume s: "status e = shuffled \<and> secrets_sent_at e = None"
  let ?ps = "listParticipantsByExchange db x"
  let ?n = "sent_count mail db ?ps"
  have ex: "findExchangeById db x = Some e" using u e by (rule unique_row)
  have "set (map p_id ?ps) \<subseteq> set (map p_id (participants db))"
    by (auto simp: listParticipantsByExchange_def)
  with ne have ne': "[] \<notin> set (map p_id ?ps)"
    unfolding participant_ids_nonempty_def by blast
  from send_loop_outcome [OF ne', of mail db ?ps] obtain errors called where
    loop: "send_loop mail db ?ps ?ps (0, [], []) = (?n, errors, called)" and
    names: "list_all2 names_participant (failed_deliveries mail db ?ps) errors"
    unfolding sent_count_def failed_deliveries_def by blast
  have len: "length errors = length ?ps - ?n"
    using list_all2_lengthD [OF names] length_failed_deliveries [of mail db ?ps] by simp
  have all: "\<exists>db' called. useSendSecretsAction mail now user x db = (SendAll ?n, db', called) \<and>
                   findExchangeByIdForOrganizer db' x user =
                     Some (e\<lparr>status := complete, secrets_sent_at := Some now, e_updated_at := now\<rparr>) \<and>
                   participants db' = participants db" if n: "?n = length ?ps"
  proof -
    let ?input = "\<lparr>in_status = Some complete, in_shuffled_at = None, in_secrets_sent_at = Some (Some now)\<rparr>"
    from updateExchange_succeeds [OF ex] obtain db' where
      up: "updateExchange db x ?input now = Inr db'" by blast
    from updateExchange_for_organizer [OF up e] ex
    have "findExchangeByIdForOrganizer db' x user =
            Some (e\<lparr>status := complete, secrets_sent_at := Some now, e_updated_at := now\<rparr>)"
      by simp
    moreover have "participants db' = participants db"
      using updateExchange_exchanges [OF up] by auto
    moreover have "useSendSecretsAction mail now user x db = (SendAll ?n, db', called)"
      using e s n up loop by (simp add: useSendSecretsAction_def Let_def)
    ultimately show ?thesis by blast
  qed
  have part: "\<exists>db' called errors. useSendSecretsAction mail now user x db =
                     (SendPartial ?n errors, db', called) \<and>
                   list_all2 names_participant (failed_deliveries mail db ?ps) errors \<and>
                   length errors = length ?ps - ?n \<and>
                   findExchangeByIdForOrganizer db' x user =
                     Some (e\<lparr>secrets_sent_at := Some now, e_updated_at := now\<rparr>) \<and>
                   participants db' = participants db" if n: "0 < ?n \<and> ?n < length ?ps"
  proof -
    let ?input = "\<lparr>in_status = None, in_shuffled_at = None, in_secrets_sent_at = Some (Some now)\<rparr>"
    from updateExchange_succeeds [OF ex] obtain db' where
      up: "updateExchange db x ?input now = Inr db'" by blast
    from updateExchange_for_organizer [OF up e] ex
    have "findExchangeByIdForOrganizer db' x user =
            Some (e\<lparr>secrets_sent_at := Some now, e_updated_at := now\<rparr>)"
      by simp
    moreover have "participants db' = participants db"
      using updateExchange_exchanges [OF up] by auto
    moreover have "useSendSecretsAction mail now user x db = (SendPartial ?n errors, db', called)"
      using e s n up loop by (simp add: useSendSecretsAction_def Let_def)
    ultimately show ?thesis using names len by blast
  qed
  have none: "\<exists>called errors. useSendSecretsAction mail now user x db =
                     (SendNone errors, db, called) \<and>
                   list_all2 names_participant (failed_deliveries mail db ?ps) errors \<and>
                   length errors = length ?ps" if n: "?n = 0 \<and> ?ps \<noteq> []"
  proof -
    have "useSendSecretsAction mail now user x db = (SendNone errors, db, called)"
      using e s n loop by (simp add: useSendSecretsAction_def Let_def)
    then show ?thesis using names len n by auto
  qed
  show "let ps = listParticipantsByExchange db x; n = sent_count mail db ps in
             (n = length ps \<longrightarrow>
                (\<exists>db' called. useSendSecretsAction mail now user x db = (SendAll n, db', called) \<and>
                   findExchangeByIdForOrganizer db' x user =
                     Some (e\<lparr>status := complete, secrets_sent_at := Some now, e_updated_at := now\<rparr>) \<and>
                   participants db' = participants db)) \<and>
             (0 < n \<and> n < length ps \<longrightarrow>
                (\<exists>db' called errors. useSendSecretsAction mail now user x db =
                     (SendPartial n errors, db', called) \<and>
                   list_all2 names_participant (failed_deliveries mail db ps) errors \<and>
                   length errors = length ps - n \<and>
                   findExchangeByIdForOrganizer db' x user =
                     Some (e\<lparr>secrets_sent_at := Some now, e_updated_at := now\<rparr>) \<and>
                   participants db' = participants db)) \<and>
             (n = 0 \<and> ps \<noteq> [] \<longrightarrow>
                (\<exists>called errors. useSendSecretsAction mail now user x db =
                     (SendNone errors, db, called) \<and>
                   list_all2 names_participant (failed_deliveries mail db ps) errors \<and>
                   length errors = length ps))"
    unfolding Let_def using all part none by blast
qed

text \<open>
  Claim C7 says that after a partial failure a resend operation delivers to exactly
  the participant that failed. The application has one action that sends the
  assignment mails, and none that takes a participant. After a send in which the mail
  to \<open>c\<close> failed, running that action again, now with a mail service that works, is
  refused and calls the mail service for nobody: \<open>c\<close> is not retried.
\<close>

theorem partial_send_not_retried:
  "useSendSecretsAction mail_fails_for_c 9 ''u'' ''x'' (example_shuffled None 5)
     = (SendPartial 2 [''c@example.org: Send failed''], example_shuffled (Some 9) 9,
        [''a'', ''b'', ''c'']) \<and>
   useSendSecretsAction mail_works 10 ''u'' ''x'' (example_shuffled (Some 9) 9)
     = (SendError ''Secrets have already been sent.'', example_shuffled (Some 9) 9, [])"
  by code_simp

text \<open>
  Claim C7, as the code has it. After a send with partial failures the reveal
  timestamp is set, and every later run of the send action on that exchange is refused
  with "Secrets have already been sent.", calls the mail service for nobody and leaves
  the store unchanged: nobody is notified twice, and nobody is retried.
\<close>

theorem no_second_send_after_partial:
  assumes u: "exchange_ids_unique db"
    and p: "useSendSecretsAction mail now user x db = (SendPartial n errors, db', called)"
  shows "useSendSecretsAction mail' now' user x db' =
           (SendError ''Secrets have already been sent.'', db', [])"
proof -
  from p obtain e where e: "findExchangeByIdForOrganizer db x user = Some e"
    by (auto simp: useSendSecretsAction_def split: option.splits)
  have ex: "findExchangeById db x = Some e" using u e by (rule unique_row)
  from p e have s: "status e = shuffled" "secrets_sent_at e = None"
    by (auto simp: useSendSecretsAction_def split: if_splits)
  let ?input = "\<lparr>in_status = None, in_shuffled_at = None, in_secrets_sent_at = Some (Some now)\<rparr>"
  from p e s have up: "updateExchange db x ?input now = Inr db'"
    by (auto simp: useSendSecretsAction_def Let_def split: if_splits sum.splits prod.splits)
  from updateExchange_for_organizer [OF up e] ex
  have "findExchangeByIdForOrganizer db' x user =
          Some (e\<lparr>secrets_sent_at := Some now, e_updated_at := now\<rparr>)" by simp
  then show ?thesis using s by (simp add: useSendSecretsAction_def)
qed

theorem no_second_send_after_partial_witness:
  "exchange_ids_unique (example_shuffled None 5) \<and>
   useSendSecretsAction mail_fails_for_c 9 ''u'' ''x'' (example_shuffled None 5)
     = (SendPartial 2 [''c@example.org: Send failed''], example_shuffled (Some 9) 9,
        [''a'', ''b'', ''c'']) \<and>
   useSendSecretsAction mail_works 10 ''u'' ''x'' (example_shuffled (Some 9) 9)
     = (SendError ''Secrets have already been sent.'', example_shuffled (Some 9) 9, [])"
proof -
  have u: "exchange_ids_unique (example_shuffled None 5)" by code_simp
  have p: "useSendSecretsAction mail_fails_for_c 9 ''u'' ''x'' (example_shuffled None 5)
     = (SendPartial 2 [''c@example.org: Send failed''], example_shuffled (Some 9) 9,
        [''a'', ''b'', ''c''])"
    by code_simp
  show ?thesis by (rule conjI [OF u conjI [OF p no_second_send_after_partial [OF u p]]])
qed


lemma status_advanced_refl [simp]: "status_advanced es es"
  by (simp add: status_advanced_def list_all2_same)

lemma status_advanced_trans:
  assumes "status_advanced es1 es2" "status_advanced es2 es3"
  shows "status_advanced es1 es3"
proof -
  have "list_all2 (\<lambda>a c. (e_id c = e_id a \<and> rank (status a) \<le> rank (status c))) es1 es3"
    using assms unfolding status_advanced_def
    by (rule list_all2_trans [rotated]) auto
  then show ?thesis by (simp add: status_advanced_def)
qed

lemma status_advanced_ids: "status_advanced es es' \<Longrightarrow> map e_id es' = map e_id es"
  unfolding status_advanced_def by (induction es es' rule: list_all2_induct) auto

lemma status_advanced_map:
  "(\<And>e. e \<in> set es \<Longrightarrow> e_id (f e) = e_id e \<and> rank (status e) \<le> rank (status (f e)))
   \<Longrightarrow> status_advanced es (map f es)"
  by (simp add: status_advanced_def list_all2_map2 list_all2_same)

lemma status_advanced_find:
  assumes "status_advanced es es'" "find (\<lambda>e. e_id e = x) es = Some e"
  shows "\<exists>e'. find (\<lambda>e. e_id e = x) es' = Some e' \<and> rank (status e) \<le> rank (status e')"
  using assms unfolding status_advanced_def
  by (induction es es' rule: list_all2_induct) (auto split: if_splits)

lemma row_is_found:
  assumes u: "exchange_ids_unique db" and f: "findExchangeById db x = Some e"
    and r: "r \<in> set (exchanges db)" "e_id r = x"
  shows "r = e"
proof -
  have "e \<in> set (exchanges db)" "e_id e = x"
    using f unfolding findExchangeById_def by (auto simp: find_Some_iff)
  moreover have "inj_on e_id (set (exchanges db))"
    using u by (simp add: exchange_ids_unique_def distinct_map)
  ultimately show ?thesis using r by (auto dest: inj_onD)
qed

lemma updateExchangeStatus_advanced:
  assumes u: "exchange_ids_unique db" and f: "findExchangeById db x = Some e"
    and le: "rank (status e) \<le> rank st"
  shows "status_advanced (exchanges db) (exchanges (updateExchangeStatus db x st now))"
  unfolding updateExchangeStatus_def
  using row_is_found [OF u f] le by (auto intro!: status_advanced_map)

lemma updateExchange_advanced:
  assumes u: "exchange_ids_unique db" and f: "findExchangeById db x = Some e"
    and le: "\<And>s. in_status input = Some s \<Longrightarrow> rank (status e) \<le> rank s"
    and up: "updateExchange db x input now = Inr db'"
  shows "status_advanced (exchanges db) (exchanges db')"
proof -
  from updateExchange_exchanges [OF up] f have
    db': "exchanges db' = map (\<lambda>r. if e_id r = x
                 then r\<lparr>status := (case in_status input of Some s \<Rightarrow> s | None \<Rightarrow> status e),
                        shuffled_at := (case in_shuffled_at input of Some t \<Rightarrow> t
                                        | None \<Rightarrow> shuffled_at e),
                        secrets_sent_at := (case in_secrets_sent_at input of Some t \<Rightarrow> t
                                            | None \<Rightarrow> secrets_sent_at e),
                        e_updated_at := now\<rparr>
                 else r) (exchanges db)" by auto
  show ?thesis unfolding db'
    using row_is_found [OF u f] le by (auto intro!: status_advanced_map split: option.splits)
qed

lemma createParticipant_exchanges:
  "createParticipant db pid x mail now = Inr db1 \<Longrightarrow> exchanges db1 = exchanges db"
  by (auto simp: createParticipant_def split: if_splits)

lemma useAddParticipant_advanced:
  assumes u: "exchange_ids_unique db"
  shows "status_advanced (exchanges db) (exchanges (snd (useAddParticipant mail pid now user x db)))"
proof (cases "findExchangeByIdForOrganizer db x user")
  case None
  then show ?thesis by (simp add: useAddParticipant_def)
next
  case (Some e)
  have "status_advanced (exchanges db) (exchanges (updateExchangeStatus db1 x collecting now))"
    if c: "createParticipant db pid x mail now = Inr db1" and d: "status e = draft" for db1
  proof -
    have ex: "findExchangeById db1 x = Some e"
      using unique_row [OF u Some] createParticipant_exchanges [OF c]
      by (simp add: findExchangeById_def)
    have u': "exchange_ids_unique db1"
      using u createParticipant_exchanges [OF c] by (simp add: exchange_ids_unique_def)
    show ?thesis
      using updateExchangeStatus_advanced [OF u' ex, of collecting now] d
        createParticipant_exchanges [OF c] by simp
  qed
  then show ?thesis using Some
    by (auto simp: useAddParticipant_def Let_def createParticipant_exchanges
        split: option.splits sum.splits)
qed

lemma useUpdateParticipantEmail_exchanges:
  "exchanges (snd (useUpdateParticipantEmail mail valid pid now user x db)) = exchanges db"
  by (auto simp: useUpdateParticipantEmail_def updateParticipantEmail_def split: option.splits)

lemma useRemoveParticipant_exchanges:
  "exchanges (snd (useRemoveParticipant pid user x db)) = exchanges db"
  by (auto simp: useRemoveParticipant_def deleteParticipant_def
      split: option.splits sum.splits if_splits)

lemma useUpdateExchange_advanced:
  assumes u: "exchange_ids_unique db"
  shows "status_advanced (exchanges db) (exchanges (snd (useUpdateExchange now user x db)))"
proof (cases "findExchangeByIdForOrganizer db x user")
  case None
  then show ?thesis by (simp add: useUpdateExchange_def)
next
  case (Some e)
  have ex: "findExchangeById db x = Some e" using u Some by (rule unique_row)
  have "status_advanced (exchanges db) (exchanges db')"
    if "updateExchange db x
          \<lparr>in_status = None, in_shuffled_at = None, in_secrets_sent_at = None\<rparr> now = Inr db'"
    for db'
    using updateExchange_advanced [OF u ex _ that] by simp
  then show ?thesis
    using Some by (auto simp: useUpdateExchange_def split: sum.splits)
qed

lemma checkAndNotifyAllComplete_advanced:
  assumes u: "exchange_ids_unique db"
  shows "status_advanced (exchanges db) (exchanges (snd (checkAndNotifyAllComplete mail_ok now x db)))"
proof (cases "findExchangeById db x")
  case None
  then show ?thesis by (simp add: checkAndNotifyAllComplete_def)
next
  case (Some e)
  have "status_advanced (exchanges db) (exchanges (updateExchangeStatus db x ready now))"
    if "status e = collecting"
    using updateExchangeStatus_advanced [OF u Some, of ready now] that by simp
  then show ?thesis using Some
    by (auto simp: checkAndNotifyAllComplete_def Let_def split: option.splits)
qed

lemma useShuffleAction_advanced:
  assumes u: "exchange_ids_unique db"
  shows "status_advanced (exchanges db) (exchanges (snd (useShuffleAction g now user x db)))"
proof (cases "shuffle_prepare g user x db")
  case (Inl err)
  then show ?thesis by (simp add: useShuffleAction_def)
next
  case (Inr asg)
  then obtain e where e: "findExchangeByIdForOrganizer db x user = Some e"
    and st: "status e = collecting \<or> status e = ready"
    by (auto simp: shuffle_prepare_def split: option.splits if_splits)
  obtain r db1 where sv: "save_assignments asg now db = (r, db1)"
    by (cases "save_assignments asg now db")
  have same: "exchanges db1 = exchanges db" using save_assignments_frame [OF sv] by simp
  have u1: "exchange_ids_unique db1" using u same by (simp add: exchange_ids_unique_def)
  have ex: "findExchangeById db1 x = Some e"
    using unique_row [OF u e] same by (simp add: findExchangeById_def)
  have "status_advanced (exchanges db) (exchanges db')"
    if "updateExchange db1 x
          \<lparr>in_status = Some shuffled, in_shuffled_at = Some (Some now), in_secrets_sent_at = None\<rparr> now
        = Inr db'" for db'
    using updateExchange_advanced [OF u1 ex _ that] st same by auto
  then show ?thesis using Inr sv same
    by (auto simp: useShuffleAction_def shuffle_commit_def split: sum.splits option.splits)
qed

lemma useSendSecretsAction_advanced:
  assumes u: "exchange_ids_unique db"
  shows "status_advanced (exchanges db) (exchanges (fst (snd (useSendSecretsAction mail now user x db))))"
proof (cases "findExchangeByIdForOrganizer db x user")
  case None
  then show ?thesis by (simp add: useSendSecretsAction_def)
next
  case (Some e)
  have ex: "findExchangeById db x = Some e" using u Some by (rule unique_row)
  have a: "status_advanced (exchanges db) (exchanges db')"
    if "updateExchange db x inp now = Inr db'"
      and "in_status inp = Some complete \<or> in_status inp = None" for db' inp
    using updateExchange_advanced [OF u ex _ that(1)] that(2) by (cases "status e") auto
  show ?thesis using Some
    by (auto simp: useSendSecretsAction_def Let_def split: sum.splits prod.splits intro!: a)
qed

lemma apply_operation_advanced:
  assumes u: "exchange_ids_unique db"
  shows "status_advanced (exchanges db) (exchanges (apply_operation op db))"
  using u
  by (cases op)
     (simp_all add: useAddParticipant_advanced useUpdateParticipantEmail_exchanges
        useRemoveParticipant_exchanges useUpdateExchange_advanced
        checkAndNotifyAllComplete_advanced useShuffleAction_advanced
        useSendSecretsAction_advanced)

lemma run_advanced:
  "exchange_ids_unique db \<Longrightarrow> status_advanced (exchanges db) (exchanges (run ops db))"
proof (induction ops arbitrary: db)
  case Nil
  then show ?case by (simp add: run_def)
next
  case (Cons op ops)
  have a: "status_advanced (exchanges db) (exchanges (apply_operation op db))"
    using Cons.prems by (rule apply_operation_advanced)
  then have "exchange_ids_unique (apply_operation op db)"
    using Cons.prems status_advanced_ids [OF a] by (simp add: exchange_ids_unique_def)
  from Cons.IH [OF this] a show ?case
    by (auto simp: run_def intro: status_advanced_trans)
qed

text \<open>
  Claim C8. The status of an exchange only moves forward in the order
  Draft < Collecting < Ready < Shuffled < Complete: after any sequence of operations
  (adding, editing and removing participants, editing the exchange, the
  questionnaire-completion check, shuffle, send secrets; any parameters, any exchange
  as target) the exchange is still there and its status is the same or later. The ids
  of the exchanges are unique (the primary key).
\<close>

theorem status_monotonic:
  assumes "exchange_ids_unique db" "findExchangeById db x = Some e"
  shows "\<exists>e'. findExchangeById (run ops db) x = Some e' \<and> rank (status e) \<le> rank (status e')"
  using status_advanced_find [OF run_advanced [OF assms(1), of ops], of x e] assms(2)
  by (simp add: findExchangeById_def)

theorem status_monotonic_witness:
  "exchange_ids_unique (example_store draft) \<and>
   findExchangeById (example_store draft) ''x'' = Some (hd (exchanges (example_store draft))) \<and>
   (\<exists>e'. findExchangeById
           (run [AddParticipant ''d@example.org'' ''d'' 2 ''u'' ''x'',
                 RemoveParticipant ''d'' ''u'' ''x'',
                 CompletionCheck True 4 ''x'',
                 Shuffle (\<lambda>k. 0) 5 ''u'' ''x'',
                 RemoveParticipant ''a'' ''u'' ''x'',
                 SendSecrets mail_works 9 ''u'' ''x'',
                 Shuffle (\<lambda>k. 1) 10 ''u'' ''x'']
              (example_store draft)) ''x'' = Some e' \<and>
         rank (status (hd (exchanges (example_store draft)))) \<le> rank (status e'))"
proof -
  have u: "exchange_ids_unique (example_store draft)" by code_simp
  have h: "findExchangeById (example_store draft) ''x'' = Some (hd (exchanges (example_store draft)))"
    by code_simp
  show ?thesis by (rule conjI [OF u conjI [OF h status_monotonic [OF u h]]])
qed


text \<open>
  The guard of the remove action, "Can't remove after shuffling": on an exchange that is
  Shuffled or Complete the action returns its error and leaves the store unchanged.
  The add action and the edit action of the exchange have the same kind of guard.
\<close>

lemma remove_participant_refused:
  assumes "findExchangeByIdForOrganizer db x user = Some e"
    and "status e = shuffled \<or> status e = complete"
  shows "useRemoveParticipant pid user x db =
           (ActionError ''Cannot remove participants after shuffling.'', db)"
  using assms by (auto simp: useRemoveParticipant_def)

lemma add_participant_refused:
  assumes "findExchangeByIdForOrganizer db x user = Some e"
    and "status e \<noteq> draft" "status e \<noteq> collecting"
  shows "useAddParticipant mail pid now user x db =
           (ActionError ''Cannot add participants after shuffling.'', db)"
  using assms by (auto simp: useAddParticipant_def)

lemma edit_exchange_refused:
  assumes "findExchangeByIdForOrganizer db x user = Some e"
    and "status e = shuffled \<or> status e = complete"
  shows "useUpdateExchange now user x db = (ActionError ''Cannot edit after shuffling.'', db)"
  using assms by (auto simp: useUpdateExchange_def)

text \<open>
  The action that edits a participant reads the exchange only to check its owner: for
  a participant of the exchange and a valid email that no other participant of the
  exchange has, it writes the new email whatever the status of the exchange.
\<close>

lemma update_participant_email_any_status:
  assumes "findExchangeByIdForOrganizer db x user = Some e"
    and "findParticipantById db pid = Some p" "exchange_id p = x"
    and "findParticipantByExchangeAndEmail db x newEmail = None"
  shows "useUpdateParticipantEmail newEmail True pid now user x db =
           (ActionOk, updateParticipantEmail db pid newEmail now)"
  using assms by (simp add: useUpdateParticipantEmail_def)

text \<open>
  Claim C9 says that removing or editing a participant is refused, the participants
  unchanged, once the exchange is Shuffled. Take the exchange \<open>x\<close> of the example,
  shuffled from status Collecting at time 5. Removing participant \<open>b\<close>, adding a
  participant and editing the exchange are then refused and leave the store as it is.
  Editing participant \<open>b\<close> is not refused: the action answers with success and the
  email of \<open>b\<close> is replaced.
\<close>

theorem edit_participant_after_shuffle:
  "useShuffleAction (\<lambda>k. 0) 5 ''u'' ''x'' (example_store collecting)
     = (ShuffleSuccess 3, example_shuffled None 5) \<and>
   map status (exchanges (example_shuffled None 5)) = [shuffled] \<and>
   useRemoveParticipant ''b'' ''u'' ''x'' (example_shuffled None 5)
     = (ActionError ''Cannot remove participants after shuffling.'', example_shuffled None 5) \<and>
   useAddParticipant ''d@example.org'' ''d'' 6 ''u'' ''x'' (example_shuffled None 5)
     = (ActionError ''Cannot add participants after shuffling.'', example_shuffled None 5) \<and>
   useUpdateExchange 6 ''u'' ''x'' (example_shuffled None 5)
     = (ActionError ''Cannot edit after shuffling.'', example_shuffled None 5) \<and>
   fst (useUpdateParticipantEmail ''new@example.org'' True ''b'' 6 ''u'' ''x'' (example_shuffled None 5))
     = ActionOk \<and>
   map email (participants (example_shuffled None 5))
     = [''a@example.org'', ''b@example.org'', ''c@example.org''] \<and>
   map email (participants (snd
      (useUpdateParticipantEmail ''new@example.org'' True ''b'' 6 ''u'' ''x'' (example_shuffled None 5))))
     = [''a@example.org'', ''new@example.org'', ''c@example.org'']"
  by code_simp

section \<open>The stores the application keeps\<close>

text \<open>
  Every operation keeps the ids unique and keeps at least two participants in every
  exchange that is Shuffled or Complete: participants are added and removed only before
  the shuffle, and the shuffle requires two of them.
\<close>

lemma store_okI:
  assumes "map e_id (exchanges db') = map e_id (exchanges db)" "exchange_ids_unique db"
    and "participant_ids_unique db'"
    and "\<And>e'. e' \<in> set (exchanges db') \<Longrightarrow>
           rank (status e') < 3 \<or> 2 \<le> countParticipantsByExchange db' (e_id e')"
  shows "store_ok db'"
  using assms by (auto simp: store_ok_def exchange_ids_unique_def shuffled_have_participants_def list_all_iff)

lemma store_ok_row:
  "store_ok db \<Longrightarrow> e \<in> set (exchanges db) \<Longrightarrow>
   rank (status e) < 3 \<or> 2 \<le> countParticipantsByExchange db (e_id e)"
  by (auto simp: store_ok_def shuffled_have_participants_def list_all_iff)

lemma store_ok_save_assignments:
  assumes ok: "store_ok db" and sv: "save_assignments asg now db = (r, db1)"
  shows "store_ok db1"
    and "countParticipantsByExchange db1 y = countParticipantsByExchange db y"
proof -
  note frame = save_assignments_frame [OF sv]
  have "length (filter (\<lambda>i. i = z) (map exchange_id (participants db1)))
      = length (filter (\<lambda>i. i = z) (map exchange_id (participants db)))" for z
    using frame by simp
  then show count: "countParticipantsByExchange db1 z = countParticipantsByExchange db z" for z
    by (simp add: countParticipantsByExchange_def filter_map comp_def)
  show "store_ok db1"
  proof (rule store_okI [of _ db])
    show "map e_id (exchanges db1) = map e_id (exchanges db)" using frame by simp
    show "exchange_ids_unique db" using ok by (simp add: store_ok_def)
    show "participant_ids_unique db1"
      using ok frame by (simp add: store_ok_def participant_ids_unique_def)
    fix e' assume "e' \<in> set (exchanges db1)"
    then have "e' \<in> set (exchanges db)" using frame by simp
    from store_ok_row [OF ok this]
    show "rank (status e') < 3 \<or> 2 \<le> countParticipantsByExchange db1 (e_id e')"
      by (simp add: count)
  qed
qed

lemma updateExchange_rows:
  assumes up: "updateExchange db x input now = Inr db'" and u: "exchange_ids_unique db"
    and f: "findExchangeById db x = Some e"
  shows "participants db' = participants db"
    and "map e_id (exchanges db') = map e_id (exchanges db)"
    and "\<And>e'. e' \<in> set (exchanges db') \<Longrightarrow>
           e' \<in> set (exchanges db) \<and> e_id e' \<noteq> x \<or>
           e_id e' = x \<and> status e' = (case in_status input of Some s \<Rightarrow> s | None \<Rightarrow> status e)"
proof -
  from updateExchange_exchanges [OF up] f have
    db': "db' = db\<lparr>exchanges := map (\<lambda>r. if e_id r = x
                 then r\<lparr>status := (case in_status input of Some s \<Rightarrow> s | None \<Rightarrow> status e),
                        shuffled_at := (case in_shuffled_at input of Some t \<Rightarrow> t
                                        | None \<Rightarrow> shuffled_at e),
                        secrets_sent_at := (case in_secrets_sent_at input of Some t \<Rightarrow> t
                                            | None \<Rightarrow> secrets_sent_at e),
                        e_updated_at := now\<rparr>
                 else r) (exchanges db)\<rparr>" by auto
  show "participants db' = participants db" by (simp add: db')
  show "map e_id (exchanges db') = map e_id (exchanges db)" by (simp add: db' comp_def)
  show "\<And>e'. e' \<in> set (exchanges db') \<Longrightarrow>
           e' \<in> set (exchanges db) \<and> e_id e' \<noteq> x \<or>
           e_id e' = x \<and> status e' = (case in_status input of Some s \<Rightarrow> s | None \<Rightarrow> status e)"
    by (auto simp: db')
qed

lemma count_same:
  "participants db' = participants db \<Longrightarrow>
   countParticipantsByExchange db' y = countParticipantsByExchange db y"
  by (simp add: countParticipantsByExchange_def)

lemma store_ok_updateExchange:
  assumes ok: "store_ok db" and f: "findExchangeById db x = Some e"
    and up: "updateExchange db x input now = Inr db'"
    and st: "rank (case in_status input of Some s \<Rightarrow> s | None \<Rightarrow> status e) < 3 \<or>
             2 \<le> countParticipantsByExchange db x"
  shows "store_ok db'"
proof -
  have u: "exchange_ids_unique db" using ok by (simp add: store_ok_def)
  note r = updateExchange_rows [OF up u f]
  show ?thesis
  proof (rule store_okI [OF r(2) u])
    show "participant_ids_unique db'" using ok r(1) by (simp add: store_ok_def participant_ids_unique_def)
    fix e' assume "e' \<in> set (exchanges db')"
    from r(3) [OF this] show "rank (status e') < 3 \<or> 2 \<le> countParticipantsByExchange db' (e_id e')"
      using st store_ok_row [OF ok, of e'] count_same [OF r(1)] by auto
  qed
qed

lemma store_ok_updateExchangeStatus:
  assumes ok: "store_ok db" and st: "rank s < 3"
  shows "store_ok (updateExchangeStatus db x s now)"
proof (rule store_okI [of _ db])
  show "map e_id (exchanges (updateExchangeStatus db x s now)) = map e_id (exchanges db)"
    by (simp add: updateExchangeStatus_def comp_def)
  show "exchange_ids_unique db" using ok by (simp add: store_ok_def)
  show "participant_ids_unique (updateExchangeStatus db x s now)"
    using ok by (simp add: store_ok_def participant_ids_unique_def updateExchangeStatus_def)
  fix e' assume "e' \<in> set (exchanges (updateExchangeStatus db x s now))"
  then show "rank (status e') < 3 \<or>
        2 \<le> countParticipantsByExchange (updateExchangeStatus db x s now) (e_id e')"
    using st store_ok_row [OF ok]
    by (auto simp: updateExchangeStatus_def countParticipantsByExchange_def)
qed

lemma store_ok_createParticipant:
  assumes ok: "store_ok db" and c: "createParticipant db pid x mail now = Inr db1"
  shows "store_ok db1"
proof -
  have db1: "db1 = db\<lparr>participants := participants db @
        [\<lparr>p_id = pid, exchange_id = x, email = mail,
          questionnaire_completed_at = None, assigned_recipient_id = None,
          p_updated_at = now\<rparr>]\<rparr>" and fresh: "pid \<notin> set (map p_id (participants db))"
    using c by (auto simp: createParticipant_def split: if_splits)
  show ?thesis
  proof (rule store_okI [of _ db])
    show "map e_id (exchanges db1) = map e_id (exchanges db)" by (simp add: db1)
    show "exchange_ids_unique db" using ok by (simp add: store_ok_def)
    show "participant_ids_unique db1"
      using ok fresh by (simp add: store_ok_def participant_ids_unique_def db1)
    fix e' assume "e' \<in> set (exchanges db1)"
    then have "e' \<in> set (exchanges db)" by (simp add: db1)
    from store_ok_row [OF ok this]
    show "rank (status e') < 3 \<or> 2 \<le> countParticipantsByExchange db1 (e_id e')"
      by (auto simp: db1 countParticipantsByExchange_def)
  qed
qed

lemma store_ok_useAddParticipant:
  assumes ok: "store_ok db"
  shows "store_ok (snd (useAddParticipant mail pid now user x db))"
  using ok store_ok_createParticipant [OF ok]
  by (auto simp: useAddParticipant_def Let_def store_ok_updateExchangeStatus
      split: option.splits sum.splits)

lemma store_ok_updateParticipantEmail:
  assumes ok: "store_ok db"
  shows "store_ok (updateParticipantEmail db pid mail now)"
proof (rule store_okI [of _ db])
  have m: "map exchange_id (participants (updateParticipantEmail db pid mail now))
             = map exchange_id (participants db)"
    by (simp add: updateParticipantEmail_def comp_def)
  have c: "countParticipantsByExchange (updateParticipantEmail db pid mail now) y
             = countParticipantsByExchange db y" for y
  proof -
    have "length (filter (\<lambda>i. i = y) (map exchange_id (participants (updateParticipantEmail db pid mail now))))
      = length (filter (\<lambda>i. i = y) (map exchange_id (participants db)))" using m by simp
    then show ?thesis by (simp add: countParticipantsByExchange_def filter_map comp_def)
  qed
  show "map e_id (exchanges (updateParticipantEmail db pid mail now)) = map e_id (exchanges db)"
    by (simp add: updateParticipantEmail_def)
  show "exchange_ids_unique db" using ok by (simp add: store_ok_def)
  have "map p_id (participants (updateParticipantEmail db pid mail now)) = map p_id (participants db)"
    by (simp add: updateParticipantEmail_def comp_def)
  then show "participant_ids_unique (updateParticipantEmail db pid mail now)"
    using ok by (simp add: store_ok_def participant_ids_unique_def)
  fix e' assume "e' \<in> set (exchanges (updateParticipantEmail db pid mail now))"
  then have "e' \<in> set (exchanges db)" by (simp add: updateParticipantEmail_def)
  from store_ok_row [OF ok this]
  show "rank (status e') < 3 \<or>
        2 \<le> countParticipantsByExchange (updateParticipantEmail db pid mail now) (e_id e')"
    by (simp add: c)
qed

lemma store_ok_useUpdateParticipantEmail:
  "store_ok db \<Longrightarrow> store_ok (snd (useUpdateParticipantEmail mail valid pid now user x db))"
  by (auto simp: useUpdateParticipantEmail_def store_ok_updateParticipantEmail split: option.splits)


lemma store_ok_useRemoveParticipant:
  assumes ok: "store_ok db"
  shows "store_ok (snd (useRemoveParticipant pid user x db))"
proof (cases "findExchangeByIdForOrganizer db x user")
  case None
  then show ?thesis using ok by (simp add: useRemoveParticipant_def)
next
  case (Some e)
  have u: "exchange_ids_unique db" and pu: "participant_ids_unique db"
    using ok by (simp_all add: store_ok_def)
  have ex: "findExchangeById db x = Some e" using u Some by (rule unique_row)
  have "store_ok db'"
    if st: "status e \<noteq> shuffled" "status e \<noteq> complete"
      and p: "findParticipantById db pid = Some p" "exchange_id p = x"
      and del: "deleteParticipant db pid = Inr db'" for p db'
  proof (rule store_okI [OF _ u])
    from del have db': "db' = db\<lparr>participants := filter (\<lambda>p. p_id p \<noteq> pid) (participants db),
                       questionnaires := filter (\<lambda>q. participant_id q \<noteq> pid) (questionnaires db)\<rparr>"
      by (simp add: deleteParticipant_def split: if_splits)
    show "map e_id (exchanges db') = map e_id (exchanges db)"
      by (simp add: db')
    show "participant_ids_unique db'"
      using pu by (simp add: participant_ids_unique_def db' distinct_map_filter)
    fix e' assume e': "e' \<in> set (exchanges db')"
    then have in_db: "e' \<in> set (exchanges db)" by (simp add: db')
    show "rank (status e') < 3 \<or> 2 \<le> countParticipantsByExchange db' (e_id e')"
    proof (cases "e_id e' = x")
      case True
      then have "e' = e" using row_is_found [OF u ex in_db] by simp
      then show ?thesis using st by (cases "status e") auto
    next
      case False
      have pin: "p \<in> set (participants db)" "p_id p = pid"
        using p(1) unfolding findParticipantById_def by (auto simp: find_Some_iff)
      have inj: "inj_on p_id (set (participants db))"
        using pu by (simp add: participant_ids_unique_def distinct_map)
      have "filter (\<lambda>q. exchange_id q = e_id e') (filter (\<lambda>q. p_id q \<noteq> pid) (participants db))
              = filter (\<lambda>q. exchange_id q = e_id e') (participants db)"
      proof -
        have "exchange_id q = e_id e' \<and> p_id q \<noteq> pid \<longleftrightarrow> exchange_id q = e_id e'"
          if "q \<in> set (participants db)" for q
        proof -
          have "q = p" if "p_id q = pid" using inj pin that \<open>q \<in> set (participants db)\<close>
            by (auto dest: inj_onD)
          then show ?thesis using p(2) False by auto
        qed
        then show ?thesis by (simp add: conj_commute cong: filter_cong)
      qed
      then have "countParticipantsByExchange db' (e_id e')
                   = countParticipantsByExchange db (e_id e')"
        by (simp add: countParticipantsByExchange_def db')
      then show ?thesis using store_ok_row [OF ok in_db] by simp
    qed
  qed
  then show ?thesis using Some ok
    by (auto simp: useRemoveParticipant_def split: option.splits sum.splits)
qed

lemma store_ok_useUpdateExchange:
  assumes ok: "store_ok db"
  shows "store_ok (snd (useUpdateExchange now user x db))"
proof (cases "findExchangeByIdForOrganizer db x user")
  case None
  then show ?thesis using ok by (simp add: useUpdateExchange_def)
next
  case (Some e)
  have u: "exchange_ids_unique db" using ok by (simp add: store_ok_def)
  have ex: "findExchangeById db x = Some e" using u Some by (rule unique_row)
  have "store_ok db'"
    if up: "updateExchange db x
          \<lparr>in_status = None, in_shuffled_at = None, in_secrets_sent_at = None\<rparr> now = Inr db'"
      and st: "status e \<noteq> shuffled" "status e \<noteq> complete" for db'
    using ok ex up by (rule store_ok_updateExchange) (use st in \<open>cases "status e"; simp\<close>)
  then show ?thesis using Some ok
    by (auto simp: useUpdateExchange_def split: sum.splits)
qed

lemma store_ok_checkAndNotifyAllComplete:
  "store_ok db \<Longrightarrow> store_ok (snd (checkAndNotifyAllComplete mail_ok now x db))"
  by (auto simp: checkAndNotifyAllComplete_def Let_def store_ok_updateExchangeStatus
      split: option.splits)

lemma store_ok_useShuffleAction:
  assumes ok: "store_ok db"
  shows "store_ok (snd (useShuffleAction g now user x db))"
proof (cases "shuffle_prepare g user x db")
  case (Inl err)
  then show ?thesis using ok by (simp add: useShuffleAction_def)
next
  case (Inr asg)
  then obtain e where e: "findExchangeByIdForOrganizer db x user = Some e"
    and n: "2 \<le> length (listParticipantsByExchange db x)"
    by (auto simp: shuffle_prepare_def Let_def split: option.splits if_splits)
  have u: "exchange_ids_unique db" using ok by (simp add: store_ok_def)
  obtain r db1 where sv: "save_assignments asg now db = (r, db1)"
    by (cases "save_assignments asg now db")
  have ok1: "store_ok db1" using ok sv by (rule store_ok_save_assignments(1))
  have same: "exchanges db1 = exchanges db" using save_assignments_frame [OF sv] by simp
  have ex: "findExchangeById db1 x = Some e"
    using unique_row [OF u e] same by (simp add: findExchangeById_def)
  have "2 \<le> countParticipantsByExchange db x"
    using n by (simp add: countParticipantsByExchange_def listParticipantsByExchange_def)
  then have c: "2 \<le> countParticipantsByExchange db1 x"
    using store_ok_save_assignments(2) [OF ok sv, of x] by simp
  have "store_ok db'"
    if "updateExchange db1 x
          \<lparr>in_status = Some shuffled, in_shuffled_at = Some (Some now), in_secrets_sent_at = None\<rparr> now
        = Inr db'" for db'
    using ok1 ex that by (rule store_ok_updateExchange) (use c in simp)
  then show ?thesis using Inr ok1 sv
    by (auto simp: useShuffleAction_def shuffle_commit_def split: sum.splits option.splits)
qed

lemma store_ok_useSendSecretsAction:
  assumes ok: "store_ok db"
  shows "store_ok (fst (snd (useSendSecretsAction mail now user x db)))"
proof (cases "findExchangeByIdForOrganizer db x user")
  case None
  then show ?thesis using ok by (simp add: useSendSecretsAction_def)
next
  case (Some e)
  have u: "exchange_ids_unique db" using ok by (simp add: store_ok_def)
  have ex: "findExchangeById db x = Some e" using u Some by (rule unique_row)
  have "e \<in> set (exchanges db)" "e_id e = x"
    using ex unfolding findExchangeById_def by (auto simp: find_Some_iff)
  from store_ok_row [OF ok this(1)] this(2)
  have c: "2 \<le> countParticipantsByExchange db x" if "status e = shuffled"
    using that by simp
  have a: "store_ok db'"
    if "updateExchange db x inp now = Inr db'" "status e = shuffled" for db' inp
    using ok ex that(1) by (rule store_ok_updateExchange) (use c [OF that(2)] in simp)
  show ?thesis using Some ok
    by (auto simp: useSendSecretsAction_def Let_def split: sum.splits prod.splits intro: a)
qed

lemma store_ok_apply_operation: "store_ok db \<Longrightarrow> store_ok (apply_operation op db)"
  by (cases op)
     (simp_all add: store_ok_useAddParticipant store_ok_useUpdateParticipantEmail
        store_ok_useRemoveParticipant store_ok_useUpdateExchange
        store_ok_checkAndNotifyAllComplete store_ok_useShuffleAction
        store_ok_useSendSecretsAction)

lemma store_ok_run: "store_ok db \<Longrightarrow> store_ok (run ops db)"
  unfolding run_def by (induction ops arbitrary: db) (simp_all add: store_ok_apply_operation)

lemma shuffled_exchange_has_participants:
  assumes ok: "store_ok db" and e: "findExchangeByIdForOrganizer db x user = Some e"
    and st: "status e = shuffled"
  shows "2 \<le> length (listParticipantsByExchange db x)"
proof -
  have "e \<in> set (exchanges db)" "e_id e = x"
    using e unfolding findExchangeByIdForOrganizer_def by (auto simp: find_Some_iff)
  from store_ok_row [OF ok this(1)] this(2) st show ?thesis
    by (simp add: countParticipantsByExchange_def listParticipantsByExchange_def)
qed

text \<open>
  Claim C6. Sending the secrets is refused, with nothing sent and nothing written,
  unless the exchange is Shuffled and its reveal timestamp is unset. Otherwise, with
  \<open>n\<close> the number of participants whose delivery succeeds (\<open>sent_count\<close>, which asks
  the delivery capability to report success): if all succeed the exchange becomes
  Complete and the reveal timestamp is recorded; if some but not all succeed the status
  stays Shuffled, the reveal timestamp is recorded and the result carries \<open>n\<close> and,
  for the participants whose delivery failed and in their order, one failure line each
  that names the participant; if none succeeds the store is unchanged. The store is one
  the application keeps (\<open>store_ok\<close>) and no participant has the empty id.
\<close>

theorem send_secrets_outcomes:
  assumes ok: "store_ok db"
    and ne: "participant_ids_nonempty db"
    and e: "findExchangeByIdForOrganizer db x user = Some e"
  shows "(status e \<noteq> shuffled \<or> secrets_sent_at e \<noteq> None \<longrightarrow>
            (\<exists>msg. useSendSecretsAction mail now user x db = (SendError msg, db, []))) \<and>
         (status e = shuffled \<and> secrets_sent_at e = None \<longrightarrow>
            (let ps = listParticipantsByExchange db x; n = sent_count mail db ps in
             (n = length ps \<longrightarrow>
                (\<exists>db' called. useSendSecretsAction mail now user x db = (SendAll n, db', called) \<and>
                   findExchangeByIdForOrganizer db' x user =
                     Some (e\<lparr>status := complete, secrets_sent_at := Some now, e_updated_at := now\<rparr>) \<and>
                   participants db' = participants db)) \<and>
             (0 < n \<and> n < length ps \<longrightarrow>
                (\<exists>db' called errors. useSendSecretsAction mail now user x db =
                     (SendPartial n errors, db', called) \<and>
                   list_all2 names_participant (failed_deliveries mail db ps) errors \<and>
                   length errors = length ps - n \<and>
                   findExchangeByIdForOrganizer db' x user =
                     Some (e\<lparr>secrets_sent_at := Some now, e_updated_at := now\<rparr>) \<and>
                   participants db' = participants db)) \<and>
             (n = 0 \<longrightarrow>
                (\<exists>called errors. useSendSecretsAction mail now user x db =
                     (SendNone errors, db, called) \<and>
                   list_all2 names_participant (failed_deliveries mail db ps) errors \<and>
                   length errors = length ps))))"
proof -
  have u: "exchange_ids_unique db" using ok by (simp add: store_ok_def)
  have "listParticipantsByExchange db x \<noteq> []" if "status e = shuffled"
    using shuffled_exchange_has_participants [OF ok e that] by auto
  then show ?thesis
    using send_secrets_cases [OF u ne e, of mail now] unfolding Let_def by blast
qed

theorem send_secrets_outcomes_witness:
  "store_ok (example_shuffled None 5) \<and>
   participant_ids_nonempty (example_shuffled None 5) \<and>
   findExchangeByIdForOrganizer (example_shuffled None 5) ''x'' ''u''
     = Some (hd (exchanges (example_shuffled None 5))) \<and>
   (status (hd (exchanges (example_shuffled None 5))) = shuffled \<and>
    secrets_sent_at (hd (exchanges (example_shuffled None 5))) = None) \<and>
   sent_count mail_fails_for_b_and_c (example_shuffled None 5)
          (listParticipantsByExchange (example_shuffled None 5) ''x'') = 1 \<and>
   map p_id (failed_deliveries mail_fails_for_b_and_c (example_shuffled None 5)
          (listParticipantsByExchange (example_shuffled None 5) ''x'')) = [''b'', ''c''] \<and>
   useSendSecretsAction mail_fails_for_b_and_c 9 ''u'' ''x'' (example_shuffled None 5)
     = (SendPartial 1 [''b@example.org: Mailbox full'', ''c@example.org: Send failed''],
        example_shuffled (Some 9) 9, [''a'', ''b'', ''c'']) \<and>
   (0 < sent_count mail_fails_for_b_and_c (example_shuffled None 5)
          (listParticipantsByExchange (example_shuffled None 5) ''x'') \<and>
    sent_count mail_fails_for_b_and_c (example_shuffled None 5)
          (listParticipantsByExchange (example_shuffled None 5) ''x'')
      < length (listParticipantsByExchange (example_shuffled None 5) ''x'')) \<and>
   (\<exists>db' called errors.
      useSendSecretsAction mail_fails_for_b_and_c 9 ''u'' ''x'' (example_shuffled None 5)
        = (SendPartial
             (sent_count mail_fails_for_b_and_c (example_shuffled None 5)
                (listParticipantsByExchange (example_shuffled None 5) ''x''))
             errors, db', called) \<and>
      list_all2 names_participant
        (failed_deliveries mail_fails_for_b_and_c (example_shuffled None 5)
           (listParticipantsByExchange (example_shuffled None 5) ''x'')) errors \<and>
      length errors
        = length (listParticipantsByExchange (example_shuffled None 5) ''x'')
          - sent_count mail_fails_for_b_and_c (example_shuffled None 5)
              (listParticipantsByExchange (example_shuffled None 5) ''x'') \<and>
      findExchangeByIdForOrganizer db' ''x'' ''u''
        = Some ((hd (exchanges (example_shuffled None 5)))\<lparr>secrets_sent_at := Some 9, e_updated_at := 9\<rparr>) \<and>
      participants db' = participants (example_shuffled None 5))"
proof -
  have u: "store_ok (example_shuffled None 5)" by code_simp
  have i: "participant_ids_nonempty (example_shuffled None 5)" by code_simp
  have h: "findExchangeByIdForOrganizer (example_shuffled None 5) ''x'' ''u''
     = Some (hd (exchanges (example_shuffled None 5)))"
    by code_simp
  have s: "status (hd (exchanges (example_shuffled None 5))) = shuffled \<and>
           secrets_sent_at (hd (exchanges (example_shuffled None 5))) = None"
    by (simp add: example_shuffled_def)
  have c: "sent_count mail_fails_for_b_and_c (example_shuffled None 5)
          (listParticipantsByExchange (example_shuffled None 5) ''x'') = 1"
    by code_simp
  have f: "map p_id (failed_deliveries mail_fails_for_b_and_c (example_shuffled None 5)
          (listParticipantsByExchange (example_shuffled None 5) ''x'')) = [''b'', ''c'']"
    by code_simp
  have r: "useSendSecretsAction mail_fails_for_b_and_c 9 ''u'' ''x'' (example_shuffled None 5)
     = (SendPartial 1 [''b@example.org: Mailbox full'', ''c@example.org: Send failed''],
        example_shuffled (Some 9) 9, [''a'', ''b'', ''c''])"
    by code_simp
  have n: "0 < sent_count mail_fails_for_b_and_c (example_shuffled None 5)
          (listParticipantsByExchange (example_shuffled None 5) ''x'') \<and>
    sent_count mail_fails_for_b_and_c (example_shuffled None 5)
          (listParticipantsByExchange (example_shuffled None 5) ''x'')
      < length (listParticipantsByExchange (example_shuffled None 5) ''x'')"
    by code_simp
  note t = send_secrets_outcomes [OF u i h, of mail_fails_for_b_and_c 9, unfolded Let_def]
  note t2 = mp [OF conjunct2 [OF t] s]
  note t3 = mp [OF conjunct1 [OF conjunct2 [OF t2]] n]
  show ?thesis
    by (rule conjI [OF u conjI [OF i conjI [OF h conjI [OF s conjI [OF c conjI [OF f
          conjI [OF r conjI [OF n t3]]]]]]]])
qed

end
